theory Spec2Isabelle
  imports Main "HOL-Library.Word"
begin

unbundle bit_operations_syntax

section \<open>Data model of \<^verbatim>\<open>src/base64.ts\<close>\<close>

text \<open>
  The TypeScript enum \<^verbatim>\<open>Base64Variant\<close> and the interface \<^verbatim>\<open>Base64Options\<close>. Every
  field of the interface is optional; an absent field is \<open>None\<close> and the destructuring
  defaults of \<^verbatim>\<open>encode\<close> and \<^verbatim>\<open>decode\<close> fill it in.

  A \<^verbatim>\<open>Uint8Array\<close> is a list of 8-bit words. A JavaScript string is a \<open>string\<close>: the
  symbols, \<open>=\<close> and the line terminator are ASCII, and \<^verbatim>\<open>decode\<close> deletes every other
  character of its input before it looks at it. \<^verbatim>\<open>lineLength\<close> is taken to be an integer,
  positive, zero or negative. Lengths and indices are JavaScript numbers, exact in the
  range of any array or string, hence \<open>nat\<close> and \<open>int\<close>; the one place where the code
  converts to 32 bits with a possible overflow, \<^verbatim>\<open>(len * 3) >> 2\<close> in \<^verbatim>\<open>decode\<close>, is modelled
  with the wrap-around.
\<close>

datatype Base64Variant = Standard | UrlSafe

record Base64Options =
  variant :: "Base64Variant option"
  padding :: "bool option"
  lineLength :: "int option"

type_synonym byte = "8 word"

datatype error =
    Error string  \<comment> \<open>\<^verbatim>\<open>throw new Error(msg)\<close>\<close>
  | RangeError    \<comment> \<open>\<^verbatim>\<open>new Uint8Array(n)\<close> with a negative \<open>n\<close>\<close>

definition STANDARD_CHARS :: string where
  "STANDARD_CHARS = ''ABCDEFGHIJKLMNOPQRSTUVWXYZabcdefghijklmnopqrstuvwxyz0123456789+/''"

definition URLSAFE_CHARS :: string where
  "URLSAFE_CHARS = ''ABCDEFGHIJKLMNOPQRSTUVWXYZabcdefghijklmnopqrstuvwxyz0123456789-_''"

definition getChars :: "Base64Variant \<Rightarrow> string" where
  "getChars v = (if v = UrlSafe then URLSAFE_CHARS else STANDARD_CHARS)"

text \<open>
  \<^verbatim>\<open>createLookup\<close>: the loop \<^verbatim>\<open>for (i = 0; i < chars.length; i++) lookup[chars[i]] = i\<close>
  run on the empty object. The keys are one-character strings, so the object is a map
  from characters.
\<close>

definition createLookup :: "Base64Variant \<Rightarrow> (char \<rightharpoonup> nat)" where
  "createLookup v =
     (let chars = getChars v
      in fold (\<lambda>i lookup. lookup(chars ! i \<mapsto> i)) [0..<length chars] Map.empty)"

section \<open>encode\<close>

definition CR :: char where "CR = CHR 0x0D"
definition LF :: char where "LF = CHR 0x0A"

definition CRLF :: string where
  "CRLF = [CR, LF]"

text \<open>
  The 24-bit group values are integers below \<open>2 ^ 24\<close>, so the conversion to 32 bits of
  the JavaScript bit operators changes nothing and \<^verbatim>\<open>>>\<close> is \<open>drop_bit\<close> on \<open>int\<close>.
\<close>

definition symbol_at :: "string \<Rightarrow> int \<Rightarrow> char" where
  "symbol_at chars k = chars ! nat (k AND 0x3f)"

text \<open>
  The main loop of \<^verbatim>\<open>encode\<close>, \<^verbatim>\<open>for (i = 0; i < len - 2; i += 3)\<close>, as a function of the
  loop variables \<open>i\<close>, \<open>base64\<close> and \<open>lineCharCount\<close>; it returns their values at the exit.
\<close>

function encode_loop ::
  "string \<Rightarrow> byte list \<Rightarrow> int \<Rightarrow> nat \<Rightarrow> string \<Rightarrow> int \<Rightarrow> nat \<times> string \<times> int" where
  "encode_loop chars bytes ll i base64 lineCharCount =
     (if int i < int (length bytes) - 2 then
        let combined = push_bit 16 (uint (bytes ! i)) OR push_bit 8 (uint (bytes ! (i + 1)))
                         OR uint (bytes ! (i + 2));
            base64 = base64 @ [symbol_at chars (drop_bit 18 combined)];
            base64 = base64 @ [symbol_at chars (drop_bit 12 combined)];
            base64 = base64 @ [symbol_at chars (drop_bit 6 combined)];
            base64 = base64 @ [symbol_at chars combined]
        in if ll > 0 then
             let lineCharCount = lineCharCount + 4
             in if lineCharCount \<ge> ll
                then encode_loop chars bytes ll (i + 3) (base64 @ CRLF) 0
                else encode_loop chars bytes ll (i + 3) base64 lineCharCount
           else encode_loop chars bytes ll (i + 3) base64 lineCharCount
      else (i, base64, lineCharCount))"
  by pat_completeness auto
termination
  by (relation "measure (\<lambda>(chars, bytes, ll, i, base64, lineCharCount). length bytes - i)") auto

text \<open>
  The tail of \<^verbatim>\<open>encode\<close>, the body of \<^verbatim>\<open>if (i < len)\<close>. Two symbols have been appended
  when \<^verbatim>\<open>base64[base64.length - 1]\<close> is read, so the string is not empty there.
\<close>

definition encode_tail :: "string \<Rightarrow> byte list \<Rightarrow> bool \<Rightarrow> int \<Rightarrow> nat \<Rightarrow> string \<Rightarrow> string" where
  "encode_tail chars bytes pad ll i base64 =
     (let remainingBytes = length bytes - i;
          combined = push_bit 16 (uint (bytes ! i));
          combined = (if remainingBytes = 2
                      then combined OR push_bit 8 (uint (bytes ! (i + 1))) else combined);
          base64 = base64 @ [symbol_at chars (drop_bit 18 combined)];
          base64 = base64 @ [symbol_at chars (drop_bit 12 combined)];
          base64 = base64 @ (if remainingBytes = 2 then [symbol_at chars (drop_bit 6 combined)]
                             else if pad then ''='' else '''');
          base64 = base64 @ (if pad then ''='' else '''')
      in if ll > 0 \<and> last base64 \<noteq> LF then base64 @ CRLF else base64)"

definition encode :: "byte list \<Rightarrow> Base64Options \<Rightarrow> string" where
  "encode bytes options =
     (let v = (case variant options of None \<Rightarrow> Standard | Some x \<Rightarrow> x);
          pad = (case padding options of None \<Rightarrow> True | Some x \<Rightarrow> x);
          ll = (case lineLength options of None \<Rightarrow> 0 | Some x \<Rightarrow> x);
          chars = getChars v;
          len = length bytes;
          (i, base64, lineCharCount) = encode_loop chars bytes ll 0 '''' 0
      in if i < len then encode_tail chars bytes pad ll i base64 else base64)"

section \<open>decode\<close>

text \<open>
  The two regular expressions of \<^verbatim>\<open>decode\<close>, \<^verbatim>\<open>/[^A-Za-z0-9+/=]/g\<close> for the standard
  variant and \<^verbatim>\<open>/[^A-Za-z0-9\-_]/g\<close> otherwise: \<open>regex_matches v c\<close> holds when the
  negated character class matches \<open>c\<close>, and \<^verbatim>\<open>replace(regex, '')\<close> deletes exactly the
  matching characters.
\<close>

definition in_range :: "char \<Rightarrow> char \<Rightarrow> char \<Rightarrow> bool" where
  "in_range lo hi c = ((of_char lo :: nat) \<le> of_char c \<and> (of_char c :: nat) \<le> of_char hi)"

definition regex_matches :: "Base64Variant \<Rightarrow> char \<Rightarrow> bool" where
  "regex_matches v c =
     (if v = Standard
      then \<not> (in_range CHR ''A'' CHR ''Z'' c \<or> in_range CHR ''a'' CHR ''z'' c
              \<or> in_range CHR ''0'' CHR ''9'' c \<or> c = CHR ''+'' \<or> c = CHR ''/'' \<or> c = CHR ''='')
      else \<not> (in_range CHR ''A'' CHR ''Z'' c \<or> in_range CHR ''a'' CHR ''z'' c
              \<or> in_range CHR ''0'' CHR ''9'' c \<or> c = CHR ''-'' \<or> c = CHR ''_''))"

definition sanitize :: "Base64Variant \<Rightarrow> string \<Rightarrow> string" where
  "sanitize v base64 = filter (\<lambda>c. \<not> regex_matches v c) base64"

definition endsWith :: "string \<Rightarrow> string \<Rightarrow> bool" where
  "endsWith s t = (length t \<le> length s \<and> drop (length s - length t) s = t)"

text \<open>
  \<^verbatim>\<open>lookup[base64[i]] ?? 0\<close>: past the end of the string \<^verbatim>\<open>base64[i]\<close> is \<^verbatim>\<open>undefined\<close>,
  which is no key of the lookup object, and a missing key reads as \<^verbatim>\<open>undefined\<close>, which
  \<^verbatim>\<open>??\<close> replaces by 0.
\<close>

definition lookup_or_zero :: "(char \<rightharpoonup> nat) \<Rightarrow> string \<Rightarrow> nat \<Rightarrow> int" where
  "lookup_or_zero lookup base64 i =
     (if i < length base64
      then (case lookup (base64 ! i) of None \<Rightarrow> 0 | Some x \<Rightarrow> int x)
      else 0)"

text \<open>
  \<^verbatim>\<open>[3, 2, 1, 0].reduce((cur, j) => cur | (... base64[i++] ...) << (j * 6), 0)\<close>: the
  callback advances \<open>i\<close>, so the accumulator of the fold carries it along.
\<close>

definition combine :: "(char \<rightharpoonup> nat) \<Rightarrow> string \<Rightarrow> nat \<Rightarrow> int \<times> nat" where
  "combine lookup base64 i =
     fold (\<lambda>j (cur, i). (cur OR push_bit (j * 6) (lookup_or_zero lookup base64 i), i + 1))
       [3, 2, 1, 0] (0, i)"

function decode_loop ::
  "(char \<rightharpoonup> nat) \<Rightarrow> string \<Rightarrow> nat \<Rightarrow> nat \<Rightarrow> nat \<Rightarrow> byte list \<Rightarrow> byte list" where
  "decode_loop lookup base64 outputLen i byteIndex bytes =
     (if i < length base64 then
        let (combined, i) = combine lookup base64 i;
            (byteIndex, bytes) =
               (if byteIndex < outputLen
                then (byteIndex + 1, bytes[byteIndex := word_of_int (drop_bit 16 combined AND 0xff)])
                else (byteIndex, bytes));
            (byteIndex, bytes) =
               (if byteIndex < outputLen
                then (byteIndex + 1, bytes[byteIndex := word_of_int (drop_bit 8 combined AND 0xff)])
                else (byteIndex, bytes));
            (byteIndex, bytes) =
               (if byteIndex < outputLen
                then (byteIndex + 1, bytes[byteIndex := word_of_int (combined AND 0xff)])
                else (byteIndex, bytes))
        in decode_loop lookup base64 outputLen i byteIndex bytes
      else bytes)"
  by pat_completeness auto
termination
proof (relation "measure (\<lambda>(lookup, base64, outputLen, i, byteIndex, bytes). length base64 - i)")
  show "wf (measure (\<lambda>(lookup, base64, outputLen, i, byteIndex, bytes). length base64 - i))"
    by simp
next
  fix lookup :: "char \<rightharpoonup> nat" and base64 :: string and outputLen i byteIndex :: nat
    and bytes :: "byte list" and x :: "int \<times> nat" and combined :: int and i' :: nat
    and xa xb xc :: "nat \<times> byte list" and b1 b2 b3 :: nat and y1 y2 y3 :: "byte list"
  assume "i < length base64" and "x = combine lookup base64 i" and "(combined, i') = x"
  then have "i' = snd (combine lookup base64 i)"
    by (metis snd_conv)
  then have "i' = i + 4"
    by (simp add: combine_def)
  with \<open>i < length base64\<close>
  show "((lookup, base64, outputLen, i', b3, y3), (lookup, base64, outputLen, i, byteIndex, bytes))
          \<in> measure (\<lambda>(lookup, base64, outputLen, i, byteIndex, bytes). length base64 - i)"
    by simp
qed

text \<open>
  \<^verbatim>\<open>(len * 3) >> 2\<close> converts its left operand to a signed 32-bit integer first, and
  \<^verbatim>\<open>new Uint8Array(outputLen)\<close> throws a \<^verbatim>\<open>RangeError\<close> for a negative length.
\<close>

definition to_int32 :: "int \<Rightarrow> int" where
  "to_int32 x = (x + 2 ^ 31) mod 2 ^ 32 - 2 ^ 31"

definition decode :: "string \<Rightarrow> Base64Options \<Rightarrow> error + byte list" where
  "decode base64 options =
     (let v = (case variant options of None \<Rightarrow> Standard | Some x \<Rightarrow> x);
          pad = (case padding options of None \<Rightarrow> True | Some x \<Rightarrow> x);
          lookup = createLookup v;
          base64 = sanitize v base64
      in if pad \<and> length base64 mod 4 \<noteq> 0
         then Inl (Error ''Invalid Base64 string length.'')
         else
           let len = length base64;
               paddingChars = (if pad
                               then (if endsWith base64 ''=='' then 2
                                     else if endsWith base64 ''='' then 1 else 0)
                               else (0 :: int));
               outputLen = drop_bit 2 (to_int32 (int len * 3)) - paddingChars
           in if outputLen < 0 then Inl RangeError
              else Inr (decode_loop lookup base64 (nat outputLen) 0 0
                          (replicate (nat outputLen) 0)))"

section \<open>The loops as list functions\<close>

text \<open>
  Functions used in the proofs only. \<open>group4\<close> is the four symbols the loop body of
  \<^verbatim>\<open>encode\<close> emits for one group of three bytes, \<open>full_groups\<close> the list of these
  groups for a byte sequence, \<open>wrap_groups\<close> the line bookkeeping of the loop body
  applied to a list of groups, and \<open>tail_group\<close> the symbols emitted for a tail of one or
  two bytes. \<open>encode_loop_eq\<close> and \<open>encode_eq\<close> below prove that \<^verbatim>\<open>encode\<close> computes
  exactly these.
\<close>

definition group4 :: "string \<Rightarrow> byte \<Rightarrow> byte \<Rightarrow> byte \<Rightarrow> string" where
  "group4 chars b0 b1 b2 =
     (let combined = push_bit 16 (uint b0) OR push_bit 8 (uint b1) OR uint b2
      in [symbol_at chars (drop_bit 18 combined), symbol_at chars (drop_bit 12 combined),
          symbol_at chars (drop_bit 6 combined), symbol_at chars combined])"

fun full_groups :: "string \<Rightarrow> byte list \<Rightarrow> string list" where
  "full_groups chars (b0 # b1 # b2 # bs) = group4 chars b0 b1 b2 # full_groups chars bs"
| "full_groups chars bs = []"

fun wrap_groups :: "int \<Rightarrow> string \<Rightarrow> int \<Rightarrow> string list \<Rightarrow> string \<times> int" where
  "wrap_groups ll acc lcc [] = (acc, lcc)"
| "wrap_groups ll acc lcc (g # gs) =
     (if ll > 0 then
        (if lcc + 4 \<ge> ll then wrap_groups ll (acc @ g @ CRLF) 0 gs
         else wrap_groups ll (acc @ g) (lcc + 4) gs)
      else wrap_groups ll (acc @ g) lcc gs)"

definition tail_group :: "string \<Rightarrow> byte list \<Rightarrow> bool \<Rightarrow> nat \<Rightarrow> string" where
  "tail_group chars bytes pad i =
     (let remainingBytes = length bytes - i;
          combined = push_bit 16 (uint (bytes ! i));
          combined = (if remainingBytes = 2
                      then combined OR push_bit 8 (uint (bytes ! (i + 1))) else combined)
      in [symbol_at chars (drop_bit 18 combined), symbol_at chars (drop_bit 12 combined)]
         @ (if remainingBytes = 2 then [symbol_at chars (drop_bit 6 combined)]
            else if pad then ''='' else '''')
         @ (if pad then ''='' else ''''))"

text \<open>The renaming of the two symbols in which the alphabets differ.\<close>

definition url_of :: "char \<Rightarrow> char" where
  "url_of c = (if c = CHR ''+'' then CHR ''-'' else if c = CHR ''/'' then CHR ''_'' else c)"

text \<open>
  Lines of an output string. \<open>split_crlf [] s\<close> cuts \<open>s\<close> at every terminator
  \<^verbatim>\<open>"\r\n"\<close>, as \<^verbatim>\<open>s.split("\r\n")\<close> does, and \<open>join_crlf\<close> puts the pieces together
  again (\<open>join_split_crlf\<close>), so each piece but the last is followed by a terminator in
  \<open>s\<close>: these are the \<open>terminated_lines\<close>. The \<open>line_segments\<close> of \<open>s\<close> are its lines:
  the terminated ones, and the text after the last terminator when there is some.
  \<open>line_width L\<close> is the least multiple of 4 that is at least \<open>L\<close>.
\<close>

fun split_crlf :: "string \<Rightarrow> string \<Rightarrow> string list" where
  "split_crlf cur (c # d # s) =
     (if c = CR \<and> d = LF then cur # split_crlf [] s else split_crlf (cur @ [c]) (d # s))"
| "split_crlf cur [c] = [cur @ [c]]"
| "split_crlf cur [] = [cur]"

definition terminated_lines :: "string \<Rightarrow> string list" where
  "terminated_lines s = butlast (split_crlf [] s)"

definition line_segments :: "string \<Rightarrow> string list" where
  "line_segments s =
     (let segs = split_crlf [] s in if last segs = [] then butlast segs else segs)"

fun join_crlf :: "string list \<Rightarrow> string" where
  "join_crlf [] = []"
| "join_crlf [x] = x"
| "join_crlf (x # y # ys) = x @ CRLF @ join_crlf (y # ys)"

definition line_width :: "int \<Rightarrow> nat" where
  "line_width L = 4 * nat ((L + 3) div 4)"

text \<open>
  The loop of \<^verbatim>\<open>decode\<close> as list functions, again for the proofs only: \<open>pack\<close> is the
  24-bit value of three bytes, \<open>triple\<close> the three bytes \<^verbatim>\<open>decode\<close> extracts from a 24-bit
  value, \<open>store\<close> the guarded writes \<^verbatim>\<open>if (byteIndex < outputLen) bytes[byteIndex++] = x\<close>
  for a list of bytes, and \<open>dec_groups\<close> the bytes of all groups of four characters of a
  string. \<open>decode_loop_eq\<close> below proves that the loop computes exactly these.
\<close>

definition pack :: "byte \<Rightarrow> byte \<Rightarrow> byte \<Rightarrow> int" where
  "pack b0 b1 b2 = push_bit 16 (uint b0) OR push_bit 8 (uint b1) OR uint b2"

definition triple :: "int \<Rightarrow> byte list" where
  "triple c = [word_of_int (drop_bit 16 c AND 0xff), word_of_int (drop_bit 8 c AND 0xff),
               word_of_int (c AND 0xff)]"

fun store :: "nat \<Rightarrow> nat \<times> byte list \<Rightarrow> byte list \<Rightarrow> nat \<times> byte list" where
  "store outputLen (byteIndex, bytes) [] = (byteIndex, bytes)"
| "store outputLen (byteIndex, bytes) (x # xs) =
     (if byteIndex < outputLen then store outputLen (byteIndex + 1, bytes[byteIndex := x]) xs
      else store outputLen (byteIndex, bytes) xs)"

function dec_groups :: "(char \<rightharpoonup> nat) \<Rightarrow> string \<Rightarrow> byte list" where
  "dec_groups lookup s =
     (if s = [] then [] else triple (fst (combine lookup (take 4 s) 0)) @ dec_groups lookup (drop 4 s))"
  by pat_completeness auto
termination
  by (relation "measure (\<lambda>(lookup, s). length s)") auto

section \<open>The alphabets and the reverse lookup\<close>

lemma length_getChars: "length (getChars v) = 64"
  by (simp add: getChars_def STANDARD_CHARS_def URLSAFE_CHARS_def)

lemma distinct_getChars: "distinct (getChars v)"
  by (simp add: getChars_def STANDARD_CHARS_def URLSAFE_CHARS_def)

lemma fold_lookup_absent:
  "c \<notin> set chars \<Longrightarrow> n \<le> length chars \<Longrightarrow> m c = None \<Longrightarrow>
   fold (\<lambda>i lookup. lookup(chars ! i \<mapsto> i)) [0..<n] m c = None"
  by (induction n) auto

lemma fold_lookup_nth:
  "distinct chars \<Longrightarrow> n \<le> length chars \<Longrightarrow> i < n \<Longrightarrow>
   fold (\<lambda>i lookup. lookup(chars ! i \<mapsto> i)) [0..<n] m (chars ! i) = Some i"
proof (induction n)
  case 0
  then show ?case by simp
next
  case (Suc n)
  show ?case
  proof (cases "i = n")
    case True
    then show ?thesis by simp
  next
    case False
    with Suc.prems have "i < n" "n < length chars" by simp_all
    with Suc.prems False have "chars ! i \<noteq> chars ! n"
      by (simp add: nth_eq_iff_index_eq)
    with Suc \<open>i < n\<close> show ?thesis by simp
  qed
qed

lemma lookup_alphabet: "i < 64 \<Longrightarrow> createLookup v (getChars v ! i) = Some i"
  by (simp add: createLookup_def Let_def fold_lookup_nth distinct_getChars length_getChars)

lemma lookup_absent: "c \<notin> set (getChars v) \<Longrightarrow> createLookup v c = None"
  by (simp add: createLookup_def Let_def fold_lookup_absent)

lemma take62: "take 62 (getChars Standard) = take 62 (getChars UrlSafe)"
  by (simp add: getChars_def STANDARD_CHARS_def URLSAFE_CHARS_def)

text \<open>
  Claim C8. Each variant's alphabet has exactly 64 distinct symbols; the two alphabets
  agree at every position other than 62 and 63, where the standard one has \<open>+\<close> and \<open>/\<close>
  and the URL-safe one \<open>-\<close> and \<open>_\<close>; the lookup built by \<^verbatim>\<open>createLookup\<close> maps the
  symbol at position \<open>i\<close> back to \<open>i\<close>, and has no entry for any other character.
\<close>

theorem alphabet_lookup_inv:
  "length (getChars v) = 64 \<and> distinct (getChars v)
   \<and> (\<forall>i<64. i \<noteq> 62 \<and> i \<noteq> 63 \<longrightarrow> getChars Standard ! i = getChars UrlSafe ! i)
   \<and> getChars Standard ! 62 = CHR ''+'' \<and> getChars Standard ! 63 = CHR ''/''
   \<and> getChars UrlSafe ! 62 = CHR ''-'' \<and> getChars UrlSafe ! 63 = CHR ''_''
   \<and> (\<forall>i<64. createLookup v (getChars v ! i) = Some i)
   \<and> (\<forall>c. c \<notin> set (getChars v) \<longrightarrow> createLookup v c = None)"
proof -
  have a: "\<forall>i<64. i \<noteq> 62 \<and> i \<noteq> 63 \<longrightarrow> getChars Standard ! i = getChars UrlSafe ! i"
  proof (intro allI impI)
    fix i :: nat assume "i < 64" "i \<noteq> 62 \<and> i \<noteq> 63"
    then have i: "i < 62" by arith
    have "getChars Standard ! i = take 62 (getChars Standard) ! i" using i by simp
    also have "\<dots> = take 62 (getChars UrlSafe) ! i" by (simp only: take62)
    also have "\<dots> = getChars UrlSafe ! i" using i by simp
    finally show "getChars Standard ! i = getChars UrlSafe ! i" .
  qed
  have b: "\<forall>i<64. createLookup v (getChars v ! i) = Some i"
  proof (intro allI impI)
    fix i :: nat assume i: "i < 64"
    then show "createLookup v (getChars v ! i) = Some i"
      by (rule lookup_alphabet)
  qed
  have c: "getChars Standard ! 62 = CHR ''+'' \<and> getChars Standard ! 63 = CHR ''/''
   \<and> getChars UrlSafe ! 62 = CHR ''-'' \<and> getChars UrlSafe ! 63 = CHR ''_''"
    by (simp add: getChars_def STANDARD_CHARS_def URLSAFE_CHARS_def)
  show ?thesis using a b c lookup_absent length_getChars distinct_getChars by blast
qed

theorem alphabet_lookup_inv_witness:
  "(5::nat) < 64 \<and> (5::nat) \<noteq> 62 \<and> (5::nat) \<noteq> 63 \<and> getChars Standard ! 5 = getChars UrlSafe ! 5
   \<and> createLookup UrlSafe (getChars UrlSafe ! 63) = Some 63
   \<and> CHR ''+'' \<notin> set (getChars UrlSafe) \<and> createLookup UrlSafe CHR ''+'' = None"
proof -
  have "CHR ''+'' \<notin> set (getChars UrlSafe)"
    by (simp add: getChars_def URLSAFE_CHARS_def)
  moreover have "(5::nat) < 64 \<and> (5::nat) \<noteq> 62 \<and> (5::nat) \<noteq> 63" by simp
  moreover have "(63::nat) < 64" by simp
  ultimately show ?thesis using alphabet_lookup_inv [of UrlSafe] by blast
qed

section \<open>The main loop and the tail of encode\<close>

declare encode_loop.simps [simp del]

lemma encode_loop_step:
  "i + 2 < length bytes \<Longrightarrow>
   encode_loop chars bytes ll i acc lcc =
     (if ll > 0 then
        (if lcc + 4 \<ge> ll
         then encode_loop chars bytes ll (i + 3)
                (acc @ group4 chars (bytes ! i) (bytes ! (i + 1)) (bytes ! (i + 2)) @ CRLF) 0
         else encode_loop chars bytes ll (i + 3)
                (acc @ group4 chars (bytes ! i) (bytes ! (i + 1)) (bytes ! (i + 2))) (lcc + 4))
      else encode_loop chars bytes ll (i + 3)
             (acc @ group4 chars (bytes ! i) (bytes ! (i + 1)) (bytes ! (i + 2))) lcc)"
  by (subst encode_loop.simps) (simp add: Let_def group4_def)

lemma encode_loop_stop:
  "\<not> i + 2 < length bytes \<Longrightarrow> encode_loop chars bytes ll i acc lcc = (i, acc, lcc)"
  by (subst encode_loop.simps) auto

lemma drop_three:
  "i + 2 < length bytes \<Longrightarrow>
   drop i bytes = bytes ! i # bytes ! (i + 1) # bytes ! (i + 2) # drop (i + 3) bytes"
proof -
  assume a: "i + 2 < length bytes"
  then have "drop i bytes = bytes ! i # drop (Suc i) bytes"
    by (simp add: Cons_nth_drop_Suc)
  also have "drop (Suc i) bytes = bytes ! (i + 1) # drop (Suc (Suc i)) bytes"
    using a by (simp add: Cons_nth_drop_Suc)
  also have "drop (Suc (Suc i)) bytes = bytes ! (i + 2) # drop (i + 3) bytes"
    using a by (simp add: Cons_nth_drop_Suc [symmetric] numeral_3_eq_3)
  finally show ?thesis .
qed

lemma full_groups_short: "length bs < 3 \<Longrightarrow> full_groups chars bs = []"
  by (cases "(chars, bs)" rule: full_groups.cases) auto

lemma encode_loop_eq:
  "encode_loop chars bytes ll i acc lcc =
     (i + 3 * length (full_groups chars (drop i bytes)),
      wrap_groups ll acc lcc (full_groups chars (drop i bytes)))"
proof (induction "length bytes - i" arbitrary: i acc lcc rule: less_induct)
  case less
  show ?case
  proof (cases "i + 2 < length bytes")
    case True
    then have "length bytes - (i + 3) < length bytes - i" by arith
    note IH = less [OF this]
    show ?thesis
      by (simp add: encode_loop_step [OF True] drop_three [OF True] IH)
  next
    case False
    then have "full_groups chars (drop i bytes) = []"
      by (intro full_groups_short) simp
    with False show ?thesis by (simp add: encode_loop_stop)
  qed
qed

lemma length_full_groups: "length (full_groups chars bs) = length bs div 3"
  by (induction chars bs rule: full_groups.induct) auto

lemma sym_index: "nat (k AND 0x3f) < 64"
proof -
  have "k AND 0x3f \<le> 0x3f" by (rule AND_upper2) simp
  then show ?thesis by linarith
qed

lemma sym_in_alphabet: "symbol_at (getChars v) k \<in> set (getChars v)"
  unfolding symbol_at_def by (rule nth_mem) (simp add: length_getChars sym_index)

lemma alphabet_no_specials:
  "CHR ''='' \<notin> set (getChars v)" "CR \<notin> set (getChars v)" "LF \<notin> set (getChars v)"
  by (simp_all add: getChars_def STANDARD_CHARS_def URLSAFE_CHARS_def CR_def LF_def)

lemma specials_distinct: "CHR ''='' \<noteq> LF" "CHR ''='' \<noteq> CR" "CR \<noteq> LF"
  by (simp_all add: CR_def LF_def)

lemma sym_not_LF: "symbol_at (getChars v) k \<noteq> LF"
  using sym_in_alphabet [of v k] alphabet_no_specials(3) [of v] by metis

lemma length_group4: "length (group4 chars b0 b1 b2) = 4"
  by (simp add: group4_def Let_def)

lemma set_group4: "set (group4 (getChars v) b0 b1 b2) \<subseteq> set (getChars v)"
  by (simp add: group4_def Let_def sym_in_alphabet)

lemma full_groups_length4: "g \<in> set (full_groups chars bs) \<Longrightarrow> length g = 4"
  by (induction chars bs rule: full_groups.induct) (auto simp: length_group4)

lemma full_groups_alphabet:
  "g \<in> set (full_groups (getChars v) bs) \<Longrightarrow> set g \<subseteq> set (getChars v)"
proof (induction "getChars v" bs rule: full_groups.induct)
  case (1 b0 b1 b2 bs)
  then show ?case using set_group4 [of v b0 b1 b2] by auto
qed simp_all

lemma encode_tail_eq:
  "encode_tail (getChars v) bytes pad ll i acc =
     acc @ tail_group (getChars v) bytes pad i @ (if ll > 0 then CRLF else [])"
  by (simp add: encode_tail_def tail_group_def Let_def sym_not_LF specials_distinct)

lemma length_tail_group:
  "length (tail_group chars bytes pad i) = (if pad then 4 else if length bytes - i = 2 then 3 else 2)"
  by (simp add: tail_group_def Let_def)

lemma set_tail_group:
  "set (tail_group (getChars v) bytes pad i) \<subseteq> set (getChars v) \<union> (if pad then {CHR ''=''} else {})"
  by (simp add: tail_group_def Let_def sym_in_alphabet)

lemma div3_split:
  fixes n :: nat
  obtains q r where "n = 3 * q + r" and "r = 0 \<or> r = 1 \<or> r = 2"
proof -
  have a: "n = 3 * (n div 3) + n mod 3" by simp
  have b: "n mod 3 = 0 \<or> n mod 3 = 1 \<or> n mod 3 = 2" by linarith
  show ?thesis by (rule that [OF a b])
qed

lemma padded_length_arith:
  "4 * (n div 3) + (if n mod 3 = 0 then 0 else 4) = 4 * ((n + 2) div (3::nat))"
proof -
  obtain q r where n: "n = 3 * q + r" and "r = 0 \<or> r = 1 \<or> r = 2"
    by (rule div3_split)
  then show ?thesis unfolding n by auto
qed

lemma unpadded_length_arith:
  "4 * (n div 3) + (if n mod 3 = 0 then 0 else if n mod 3 = 2 then 3 else 2)
     = (n * 4 + 2) div (3::nat)"
proof -
  obtain q r where n: "n = 3 * q + r" and "r = 0 \<or> r = 1 \<or> r = 2"
    by (rule div3_split)
  then show ?thesis unfolding n by auto
qed

lemma unpadded_length_arith2:
  "4 * (n div 3) + (if n mod 3 = 0 then 0 else if n mod 3 = 2 then 3 else 2)
     = 4 * (n div 3) + (if n mod 3 = 1 then 2 else if n mod 3 = 2 then 3 else (0::nat))"
proof -
  obtain q r where n: "n = 3 * q + r" and "r = 0 \<or> r = 1 \<or> r = 2"
    by (rule div3_split)
  then show ?thesis unfolding n by auto
qed

lemma tail_start_arith:
  "3 * (n div 3) < n \<longleftrightarrow> n mod 3 \<noteq> (0::nat)" "n - 3 * (n div 3) = n mod (3::nat)"
proof -
  obtain q r where n: "n = 3 * q + r" and r: "r = 0 \<or> r = 1 \<or> r = 2"
    by (rule div3_split)
  from r show "3 * (n div 3) < n \<longleftrightarrow> n mod 3 \<noteq> (0::nat)" unfolding n by auto
  from r show "n - 3 * (n div 3) = n mod (3::nat)" unfolding n by auto
qed

lemma encode_eq:
  "encode bytes \<lparr>variant = v, padding = p, lineLength = l\<rparr> =
     (let chars = getChars (case v of None \<Rightarrow> Standard | Some x \<Rightarrow> x);
          pad = (case p of None \<Rightarrow> True | Some x \<Rightarrow> x);
          ll = (case l of None \<Rightarrow> 0 | Some x \<Rightarrow> x);
          i = 3 * (length bytes div 3)
      in fst (wrap_groups ll [] 0 (full_groups chars bytes))
         @ (if length bytes mod 3 = 0 then []
            else tail_group chars bytes pad i @ (if ll > 0 then CRLF else [])))"
  by (simp add: encode_def Let_def encode_loop_eq length_full_groups encode_tail_eq
      tail_start_arith(1) split: prod.splits)

lemma wrap_groups_off: "ll \<le> 0 \<Longrightarrow> wrap_groups ll acc lcc gs = (acc @ concat gs, lcc)"
  by (induction gs arbitrary: acc) auto

lemma length_concat_groups: "\<forall>g \<in> set gs. length g = 4 \<Longrightarrow> length (concat gs) = 4 * length gs"
  by (induction gs) auto

lemma length_concat_full_groups:
  "length (concat (full_groups chars bs)) = 4 * (length bs div 3)"
  using length_concat_groups [of "full_groups chars bs"] full_groups_length4 [of _ chars bs]
  by (simp add: length_full_groups)

lemma set_concat_full_groups:
  "set (concat (full_groups (getChars v) bs)) \<subseteq> set (getChars v)"
  using full_groups_alphabet [of _ v bs] by auto

section \<open>Output length\<close>

text \<open>
  Claim C4. With padding enabled (explicitly or by default) and no line wrapping
  (\<^verbatim>\<open>lineLength\<close> 0, explicitly or by default), in either variant, the output of
  \<^verbatim>\<open>encode\<close> for \<open>n\<close> bytes has \<open>4 * ceil (n / 3)\<close> characters.
\<close>

theorem encode_length_padded:
  assumes "p = None \<or> p = Some True" and "l = None \<or> l = Some 0"
  shows "length (encode b \<lparr>variant = v, padding = p, lineLength = l\<rparr>) = 4 * ((length b + 2) div 3)"
proof -
  have pad: "(case p of None \<Rightarrow> True | Some x \<Rightarrow> x) = True"
    using assms(1) by auto
  have ll: "(case l of None \<Rightarrow> 0 | Some x \<Rightarrow> x) = (0::int)"
    using assms(2) by auto
  have "length (encode b \<lparr>variant = v, padding = p, lineLength = l\<rparr>)
          = 4 * (length b div 3) + (if length b mod 3 = 0 then 0 else 4)"
    by (simp add: encode_eq Let_def pad ll wrap_groups_off length_concat_full_groups
        length_tail_group)
  also have "\<dots> = 4 * ((length b + 2) div 3)"
    by (rule padded_length_arith)
  finally show ?thesis .
qed

theorem encode_length_padded_witness:
  "((None :: bool option) = None \<or> (None :: bool option) = Some True)
   \<and> (Some (0 :: int) = None \<or> Some (0 :: int) = Some 0)
   \<and> length (encode [77, 97] \<lparr>variant = Some UrlSafe, padding = None, lineLength = Some 0\<rparr>)
       = 4 * ((length [77 :: byte, 97] + 2) div 3)"
  using encode_length_padded [of None "Some 0" "[77, 97]" "Some UrlSafe"] by simp

text \<open>
  Claim C5. With padding disabled and no line wrapping, in either variant, the output
  of \<^verbatim>\<open>encode\<close> for \<open>n\<close> bytes contains no \<open>=\<close> and has \<open>ceil (4 * n / 3)\<close> characters,
  that is \<open>4 * floor (n / 3)\<close> plus 2 for a tail of one byte or 3 for a tail of two.
\<close>

theorem encode_length_unpadded:
  assumes "l = None \<or> l = Some 0"
  shows "CHR ''='' \<notin> set (encode b \<lparr>variant = v, padding = Some False, lineLength = l\<rparr>)
       \<and> length (encode b \<lparr>variant = v, padding = Some False, lineLength = l\<rparr>)
           = (length b * 4 + 2) div 3
       \<and> length (encode b \<lparr>variant = v, padding = Some False, lineLength = l\<rparr>)
           = 4 * (length b div 3)
             + (if length b mod 3 = 1 then 2 else if length b mod 3 = 2 then 3 else 0)"
proof -
  let ?v = "case v of None \<Rightarrow> Standard | Some x \<Rightarrow> x"
  let ?out = "encode b \<lparr>variant = v, padding = Some False, lineLength = l\<rparr>"
  have ll: "(case l of None \<Rightarrow> 0 | Some x \<Rightarrow> x) = (0::int)"
    using assms by auto
  have rem: "length b - 3 * (length b div 3) = length b mod 3"
    by (rule tail_start_arith(2))
  have out: "?out = concat (full_groups (getChars ?v) b)
               @ (if length b mod 3 = 0 then []
                  else tail_group (getChars ?v) b False (3 * (length b div 3)))"
    by (simp add: encode_eq Let_def ll wrap_groups_off)
  have "set ?out \<subseteq> set (getChars ?v)"
    using set_concat_full_groups [of ?v b]
      set_tail_group [of ?v b False "3 * (length b div 3)"]
    by (auto simp: out)
  then have noeq: "CHR ''='' \<notin> set ?out"
    using alphabet_no_specials(1) [of ?v] by blast
  have "length ?out = 4 * (length b div 3)
             + (if length b mod 3 = 0 then 0 else if length b mod 3 = 2 then 3 else 2)"
    by (simp add: out length_concat_full_groups length_tail_group rem)
  then have "length ?out = (length b * 4 + 2) div 3"
    and "length ?out = 4 * (length b div 3)
             + (if length b mod 3 = 1 then 2 else if length b mod 3 = 2 then 3 else 0)"
    using unpadded_length_arith [of "length b"] unpadded_length_arith2 [of "length b"]
    by metis+
  with noeq show ?thesis by simp
qed

theorem encode_length_unpadded_witness:
  "((None :: int option) = None \<or> (None :: int option) = Some 0)
   \<and> CHR ''='' \<notin> set (encode [77, 97] \<lparr>variant = None, padding = Some False, lineLength = None\<rparr>)
   \<and> length (encode [77, 97] \<lparr>variant = None, padding = Some False, lineLength = None\<rparr>) = 3"
  using encode_length_unpadded [of None "[77, 97]" None] by simp

section \<open>Characters of the output\<close>

lemma set_wrap_groups:
  "set (fst (wrap_groups ll acc lcc gs))
     \<subseteq> set acc \<union> set (concat gs) \<union> (if ll > 0 then {CR, LF} else {})"
proof (induction gs arbitrary: acc lcc)
  case Nil
  then show ?case by simp
next
  case (Cons g gs)
  show ?case
    using Cons.IH [of "acc @ g @ CRLF" 0] Cons.IH [of "acc @ g" "lcc + 4"] Cons.IH [of "acc @ g" lcc]
    by (auto simp: CRLF_def)
qed

text \<open>
  Claim C9. Under any options, every character \<^verbatim>\<open>encode\<close> returns is a symbol of the
  selected alphabet, \<open>=\<close>, carriage return or line feed; with padding disabled and no
  line wrapping it is a symbol of the alphabet.
\<close>

theorem encode_output_chars:
  "set (encode b \<lparr>variant = v, padding = p, lineLength = l\<rparr>)
     \<subseteq> set (getChars (case v of None \<Rightarrow> Standard | Some x \<Rightarrow> x)) \<union> {CHR ''='', CR, LF}
   \<and> set (encode b \<lparr>variant = v, padding = Some False, lineLength = Some 0\<rparr>)
     \<subseteq> set (getChars (case v of None \<Rightarrow> Standard | Some x \<Rightarrow> x))
   \<and> set (encode b \<lparr>variant = v, padding = Some False, lineLength = None\<rparr>)
     \<subseteq> set (getChars (case v of None \<Rightarrow> Standard | Some x \<Rightarrow> x))"
proof -
  let ?v = "case v of None \<Rightarrow> Standard | Some x \<Rightarrow> x"
  have body: "set (fst (wrap_groups ll [] 0 (full_groups (getChars ?v) b)))
                \<subseteq> set (getChars ?v) \<union> (if ll > 0 then {CR, LF} else {})" for ll
  proof -
    have "set (fst (wrap_groups ll [] 0 (full_groups (getChars ?v) b)))
            \<subseteq> set [] \<union> set (concat (full_groups (getChars ?v) b))
                \<union> (if ll > 0 then {CR, LF} else {})"
      by (rule set_wrap_groups)
    moreover have "set (concat (full_groups (getChars ?v) b)) \<subseteq> set (getChars ?v)"
      by (rule set_concat_full_groups)
    ultimately show ?thesis by (simp only: list.set(1)) blast
  qed
  have tail: "set (tail_group (getChars ?v) b pad i)
                \<subseteq> set (getChars ?v) \<union> (if pad then {CHR ''=''} else {})" for pad i
    by (rule set_tail_group)
  have 1: "set (encode b \<lparr>variant = v, padding = p, lineLength = l\<rparr>)
     \<subseteq> set (getChars ?v) \<union> {CHR ''='', CR, LF}"
    unfolding encode_eq Let_def
    using body [of "case l of None \<Rightarrow> 0 | Some x \<Rightarrow> x"]
      tail [of "case p of None \<Rightarrow> True | Some x \<Rightarrow> x" "3 * (length b div 3)"]
    by (auto simp: CRLF_def split: if_splits)
  have 2: "set (encode b \<lparr>variant = v, padding = Some False, lineLength = l'\<rparr>)
     \<subseteq> set (getChars ?v)" if "l' = Some 0 \<or> l' = None" for l'
    unfolding encode_eq Let_def
    using body [of 0] tail [of False "3 * (length b div 3)"] that
    by (auto split: if_splits)
  from 1 2 [of "Some 0"] 2 [of None] show ?thesis by simp
qed

section \<open>The two variants\<close>

lemma alphabet_url_of: "getChars UrlSafe = map url_of (getChars Standard)"
  by (simp add: getChars_def STANDARD_CHARS_def URLSAFE_CHARS_def url_of_def)

lemma sym_url_of: "symbol_at (getChars UrlSafe) k = url_of (symbol_at (getChars Standard) k)"
  by (simp add: symbol_at_def alphabet_url_of length_getChars sym_index)

lemma group4_url_of:
  "group4 (getChars UrlSafe) b0 b1 b2 = map url_of (group4 (getChars Standard) b0 b1 b2)"
  by (simp add: group4_def Let_def sym_url_of)

lemma full_groups_url_of:
  "full_groups (getChars UrlSafe) bs = map (map url_of) (full_groups (getChars Standard) bs)"
proof (induction "getChars Standard" bs rule: full_groups.induct)
  case (1 b0 b1 b2 bs)
  then show ?case by (simp add: group4_url_of)
qed simp_all

lemma url_of_CRLF: "map url_of CRLF = CRLF"
  by (simp add: CRLF_def CR_def LF_def url_of_def)

lemma wrap_groups_url_of:
  "wrap_groups ll (map url_of acc) lcc (map (map url_of) gs)
     = (map url_of (fst (wrap_groups ll acc lcc gs)), snd (wrap_groups ll acc lcc gs))"
proof (induction gs arbitrary: acc lcc)
  case Nil
  then show ?case by simp
next
  case (Cons g gs)
  show ?case
    using Cons.IH [of "acc @ g @ CRLF" 0] Cons.IH [of "acc @ g" "lcc + 4"] Cons.IH [of "acc @ g" lcc]
    by (simp add: url_of_CRLF)
qed

lemma tail_group_url_of:
  "tail_group (getChars UrlSafe) bytes pad i = map url_of (tail_group (getChars Standard) bytes pad i)"
  by (simp add: tail_group_def Let_def sym_url_of url_of_def)

lemma encode_url_of:
  "encode b \<lparr>variant = Some UrlSafe, padding = p, lineLength = l\<rparr>
     = map url_of (encode b \<lparr>variant = Some Standard, padding = p, lineLength = l\<rparr>)"
  using wrap_groups_url_of [of _ "[]" 0 "full_groups (getChars Standard) b"]
  by (simp add: encode_eq Let_def full_groups_url_of tail_group_url_of url_of_CRLF)

text \<open>
  Claim C6. For the same bytes, padding and line length, the outputs of \<^verbatim>\<open>encode\<close>
  under the two variants have the same length, and at every position either the
  standard output has \<open>+\<close> and the URL-safe one \<open>-\<close>, or the standard output has \<open>/\<close>
  and the URL-safe one \<open>_\<close>, or the two agree on a character that is neither \<open>+\<close> nor
  \<open>/\<close>.
\<close>

theorem variant_divergence:
  "length (encode b \<lparr>variant = Some UrlSafe, padding = p, lineLength = l\<rparr>)
     = length (encode b \<lparr>variant = Some Standard, padding = p, lineLength = l\<rparr>)
   \<and> (\<forall>i < length (encode b \<lparr>variant = Some Standard, padding = p, lineLength = l\<rparr>).
         let s = encode b \<lparr>variant = Some Standard, padding = p, lineLength = l\<rparr> ! i;
             u = encode b \<lparr>variant = Some UrlSafe, padding = p, lineLength = l\<rparr> ! i
         in (s = CHR ''+'' \<and> u = CHR ''-'') \<or> (s = CHR ''/'' \<and> u = CHR ''_'')
            \<or> (s \<noteq> CHR ''+'' \<and> s \<noteq> CHR ''/'' \<and> u = s))"
  by (simp add: encode_url_of Let_def url_of_def)

theorem variant_divergence_witness:
  "(0::nat) < length (encode [0xfb, 0xf0, 0] \<lparr>variant = Some Standard, padding = None, lineLength = None\<rparr>)
   \<and> encode [0xfb, 0xf0, 0] \<lparr>variant = Some Standard, padding = None, lineLength = None\<rparr> ! 0
       = CHR ''+''
   \<and> encode [0xfb, 0xf0, 0] \<lparr>variant = Some UrlSafe, padding = None, lineLength = None\<rparr> ! 0
       = CHR ''-''"
proof -
  have e: "encode [0xfb, 0xf0, 0] \<lparr>variant = Some Standard, padding = None, lineLength = None\<rparr>
             = ''+/AA''"
    by code_simp
  have "0 < length (encode [0xfb, 0xf0, 0]
                      \<lparr>variant = Some Standard, padding = None, lineLength = None\<rparr>)"
    by (simp add: e)
  with variant_divergence [of "[0xfb, 0xf0, 0]" None None] e show ?thesis
    by (auto simp: Let_def)
qed

section \<open>Line wrapping\<close>

lemma split_crlf_nonempty: "split_crlf cur s \<noteq> []"
  by (induction cur s rule: split_crlf.induct) auto

lemma join_crlf_Cons: "xs \<noteq> [] \<Longrightarrow> join_crlf (x # xs) = x @ CRLF @ join_crlf xs"
  by (cases xs) auto

lemma join_split_crlf: "join_crlf (split_crlf cur s) = cur @ s"
  by (induction cur s rule: split_crlf.induct)
    (auto simp: join_crlf_Cons split_crlf_nonempty CRLF_def)

lemma split_crlf_clean: "CR \<notin> set r \<Longrightarrow> split_crlf cur r = [cur @ r]"
proof (induction r arbitrary: cur)
  case Nil
  then show ?case by simp
next
  case (Cons c r)
  then show ?case by (cases r) auto
qed

lemma split_crlf_line:
  "CR \<notin> set l \<Longrightarrow> split_crlf cur (l @ CRLF @ s) = (cur @ l) # split_crlf [] s"
proof (induction l arbitrary: cur)
  case Nil
  then show ?case by (simp add: CRLF_def)
next
  case (Cons c l)
  then have "split_crlf cur ((c # l) @ CRLF @ s) = split_crlf (cur @ [c]) (l @ CRLF @ s)"
    by (cases l) (auto simp: CRLF_def)
  with Cons show ?case by simp
qed

lemma split_crlf_lines:
  "\<forall>l \<in> set ls. CR \<notin> set l \<Longrightarrow> CR \<notin> set r \<Longrightarrow>
   split_crlf [] (concat (map (\<lambda>l. l @ CRLF) ls) @ r) = ls @ [r]"
proof (induction ls)
  case Nil
  then show ?case by (simp add: split_crlf_clean)
next
  case (Cons l ls)
  then show ?case using split_crlf_line [of l "[]"] by simp
qed

lemma line_width_reached:
  assumes "4 dvd n" and "int n < L" and "L \<le> int n + 4"
  shows "n + 4 = line_width L"
proof -
  from assms(1) obtain k where n: "n = 4 * k" by (elim dvdE)
  have "(L + 3) div 4 = int k + 1"
    using n assms(2,3) by linarith
  then show ?thesis by (simp add: line_width_def n)
qed

lemma line_width_bounds: "0 < L \<Longrightarrow> L \<le> int (line_width L) \<and> int (line_width L) \<le> L + 3"
  unfolding line_width_def by linarith

lemma line_width_strict: "0 < L \<Longrightarrow> \<not> 4 dvd L \<Longrightarrow> L < int (line_width L)"
proof -
  assume a: "0 < L" "\<not> 4 dvd L"
  have "4 dvd int (line_width L)" by (simp add: line_width_def)
  with a(2) have "int (line_width L) \<noteq> L" by metis
  with line_width_bounds [OF a(1)] show ?thesis by linarith
qed

lemma wrap_groups_lines:
  assumes "0 < L" and "\<forall>g \<in> set gs. length g = 4"
    and "int (length r) < L" and "4 dvd length r"
  shows "\<exists>ls r'. fst (wrap_groups L (pre @ r) (int (length r)) gs)
                    = pre @ concat (map (\<lambda>l. l @ CRLF) ls) @ r'
           \<and> (\<forall>l \<in> set ls. length l = line_width L \<and> set l \<subseteq> set r \<union> set (concat gs))
           \<and> int (length r') < L \<and> 4 dvd length r' \<and> set r' \<subseteq> set r \<union> set (concat gs)"
  using assms(2-)
proof (induction gs arbitrary: pre r)
  case Nil
  have "fst (wrap_groups L (pre @ r) (int (length r)) []) = pre @ concat (map (\<lambda>l. l @ CRLF) []) @ r"
    by simp
  with Nil show ?case by (intro exI [of _ "[]"] exI [of _ r]) simp
next
  case (Cons g gs)
  from Cons.prems have g: "length g = 4" and gs: "\<forall>g \<in> set gs. length g = 4" by simp_all
  show ?case
  proof (cases "int (length r) + 4 \<ge> L")
    case True
    with Cons.prems g have w: "length (r @ g) = line_width L"
      using line_width_reached [of "length r" L] by simp
    from Cons.IH [of "[]" "pre @ (r @ g) @ CRLF"] gs \<open>0 < L\<close>
    obtain ls r' where
      out: "fst (wrap_groups L (pre @ (r @ g) @ CRLF) 0 gs)
              = (pre @ (r @ g) @ CRLF) @ concat (map (\<lambda>l. l @ CRLF) ls) @ r'"
      and ls: "\<forall>l \<in> set ls. length l = line_width L \<and> set l \<subseteq> set (concat gs)"
      and r': "int (length r') < L" "4 dvd length r'" "set r' \<subseteq> set (concat gs)"
      by auto
    have "fst (wrap_groups L (pre @ r) (int (length r)) (g # gs))
            = pre @ concat (map (\<lambda>l. l @ CRLF) ((r @ g) # ls)) @ r'"
      using True \<open>0 < L\<close> out by simp
    moreover have "\<forall>l \<in> set ((r @ g) # ls).
                     length l = line_width L \<and> set l \<subseteq> set r \<union> set (concat (g # gs))"
      using w ls by auto
    moreover have "set r' \<subseteq> set r \<union> set (concat (g # gs))"
      using r'(3) by auto
    ultimately show ?thesis using r'(1,2) by blast
  next
    case False
    with g have small: "int (length (r @ g)) < L" by simp
    from Cons.prems g have dvd: "4 dvd length (r @ g)" by simp
    from Cons.IH [of "r @ g" pre, OF gs small dvd]
    obtain ls r' where
      out: "fst (wrap_groups L (pre @ r @ g) (int (length (r @ g))) gs)
              = pre @ concat (map (\<lambda>l. l @ CRLF) ls) @ r'"
      and ls: "\<forall>l \<in> set ls. length l = line_width L \<and> set l \<subseteq> set (r @ g) \<union> set (concat gs)"
      and r': "int (length r') < L" "4 dvd length r'" "set r' \<subseteq> set (r @ g) \<union> set (concat gs)"
      by auto
    have "fst (wrap_groups L (pre @ r) (int (length r)) (g # gs))
            = pre @ concat (map (\<lambda>l. l @ CRLF) ls) @ r'"
      using False \<open>0 < L\<close> out g by (simp add: add.commute)
    moreover have "\<forall>l \<in> set ls. length l = line_width L \<and> set l \<subseteq> set r \<union> set (concat (g # gs))"
      using ls by auto
    moreover have "set r' \<subseteq> set r \<union> set (concat (g # gs))"
      using r'(3) by auto
    ultimately show ?thesis using r'(1,2) by blast
  qed
qed

lemma loop_lines:
  assumes "0 < L"
  shows "\<exists>ls r. fst (wrap_groups L [] 0 (full_groups (getChars v) b))
                    = concat (map (\<lambda>l. l @ CRLF) ls) @ r
           \<and> (\<forall>l \<in> set ls. length l = line_width L \<and> set l \<subseteq> set (getChars v))
           \<and> int (length r) < L \<and> set r \<subseteq> set (getChars v)"
proof -
  have "\<forall>g \<in> set (full_groups (getChars v) b). length g = 4"
    using full_groups_length4 by blast
  from wrap_groups_lines [of L "full_groups (getChars v) b" "[]" "[]", OF assms this]
  obtain ls r where
    "fst (wrap_groups L [] 0 (full_groups (getChars v) b)) = concat (map (\<lambda>l. l @ CRLF) ls) @ r"
    and "\<forall>l \<in> set ls. length l = line_width L \<and> set l \<subseteq> set (concat (full_groups (getChars v) b))"
    and "int (length r) < L" and "set r \<subseteq> set (concat (full_groups (getChars v) b))"
    using assms by auto
  then show ?thesis
    using set_concat_full_groups [of v b] by (intro exI [of _ ls] exI [of _ r]) blast
qed

lemma alphabet_clean: "set l \<subseteq> set (getChars v) \<Longrightarrow> CR \<notin> set l"
  using alphabet_no_specials(2) [of v] by blast

lemma tail_group_clean: "CR \<notin> set (tail_group (getChars v) b pad i)"
  using set_tail_group [of v b pad i] alphabet_no_specials(2) [of v] specials_distinct(2)
  by (auto split: if_splits)

lemma tail_group_nonempty: "tail_group chars b pad i \<noteq> []"
  by (simp add: tail_group_def Let_def)

lemma encode_wrapped_eq:
  "0 < L \<Longrightarrow>
   encode b \<lparr>variant = v, padding = p, lineLength = Some L\<rparr> =
     fst (wrap_groups L [] 0 (full_groups (getChars (case v of None \<Rightarrow> Standard | Some x \<Rightarrow> x)) b))
     @ (if length b mod 3 = 0 then []
        else tail_group (getChars (case v of None \<Rightarrow> Standard | Some x \<Rightarrow> x)) b
               (case p of None \<Rightarrow> True | Some x \<Rightarrow> x) (3 * (length b div 3)) @ CRLF)"
  by (simp add: encode_eq Let_def)

text \<open>
  Claim C7. With \<^verbatim>\<open>lineLength\<close> 76 (under the default and under any other variant and
  padding), every line of the output of \<^verbatim>\<open>encode\<close> except the last one has exactly 76
  symbols; it is followed by the terminator, being a piece of \<open>split_crlf\<close> other than
  the last. The symbols of every line are alphabet symbols or \<open>=\<close>. A line is a
  terminated piece of the output or the non-empty text after the last terminator: the
  terminator that \<^verbatim>\<open>encode\<close> appends after a tail ends the last line and begins no
  further one.
\<close>

theorem line_wrapping_76:
  "(\<forall>l \<in> set (butlast (line_segments (encode b \<lparr>variant = v, padding = p, lineLength = Some 76\<rparr>))).
      length l = 76)
   \<and> (\<forall>l \<in> set (line_segments (encode b \<lparr>variant = v, padding = p, lineLength = Some 76\<rparr>)).
      set l \<subseteq> set (getChars (case v of None \<Rightarrow> Standard | Some x \<Rightarrow> x)) \<union> {CHR ''=''})"
proof -
  let ?v = "case v of None \<Rightarrow> Standard | Some x \<Rightarrow> x"
  let ?pad = "case p of None \<Rightarrow> True | Some x \<Rightarrow> x"
  let ?out = "encode b \<lparr>variant = v, padding = p, lineLength = Some 76\<rparr>"
  let ?t = "tail_group (getChars ?v) b ?pad (3 * (length b div 3))"
  have w: "line_width 76 = 76" by (simp add: line_width_def)
  from loop_lines [of 76 ?v b] obtain ls r where
    loop: "fst (wrap_groups 76 [] 0 (full_groups (getChars ?v) b))
             = concat (map (\<lambda>l. l @ CRLF) ls) @ r"
    and ls: "\<forall>l \<in> set ls. length l = 76 \<and> set l \<subseteq> set (getChars ?v)"
    and r: "set r \<subseteq> set (getChars ?v)"
    by (auto simp: w)
  have ls_clean: "\<forall>l \<in> set ls. CR \<notin> set l"
    using ls alphabet_clean by blast
  have r_clean: "CR \<notin> set r"
    using r by (rule alphabet_clean)
  have t_set: "set ?t \<subseteq> set (getChars ?v) \<union> {CHR ''=''}"
    using set_tail_group [of ?v b ?pad "3 * (length b div 3)"] by (auto split: if_splits)
  show ?thesis
  proof (cases "length b mod 3 = 0")
    case True
    then have "?out = concat (map (\<lambda>l. l @ CRLF) ls) @ r"
      by (simp add: encode_wrapped_eq loop)
    then have "split_crlf [] ?out = ls @ [r]"
      using split_crlf_lines [OF ls_clean r_clean] by simp
    then have segs: "line_segments ?out = (if r = [] then ls else ls @ [r])"
      by (simp add: line_segments_def)
    have "set (butlast (line_segments ?out)) \<subseteq> set ls"
      by (auto simp: segs dest: in_set_butlastD)
    moreover have "set (line_segments ?out) \<subseteq> set ls \<union> {r}"
      by (auto simp: segs)
    ultimately show ?thesis using ls r by blast
  next
    case False
    then have "?out = concat (map (\<lambda>l. l @ CRLF) (ls @ [r @ ?t])) @ []"
      by (simp add: encode_wrapped_eq loop)
    moreover have "\<forall>l \<in> set (ls @ [r @ ?t]). CR \<notin> set l"
      using ls_clean r_clean tail_group_clean by auto
    ultimately have "split_crlf [] ?out = (ls @ [r @ ?t]) @ [[]]"
      using split_crlf_lines [of "ls @ [r @ ?t]" "[]"] by simp
    then have segs: "line_segments ?out = ls @ [r @ ?t]"
      by (simp add: line_segments_def butlast_append)
    have "set (r @ ?t) \<subseteq> set (getChars ?v) \<union> {CHR ''=''}"
      using r t_set by auto
    then show ?thesis using ls by (auto simp: segs)
  qed
qed

theorem line_wrapping_76_witness:
  "replicate 76 CHR ''A''
     \<in> set (butlast (line_segments
                 (encode (replicate 58 0) \<lparr>variant = None, padding = None, lineLength = Some 76\<rparr>)))
   \<and> length (replicate 76 CHR ''A'') = 76"
proof -
  have "line_segments (encode (replicate 58 0) \<lparr>variant = None, padding = None, lineLength = Some 76\<rparr>)
          = [replicate 76 CHR ''A'', ''AA=='']"
    by code_simp
  then have "replicate 76 CHR ''A''
     \<in> set (butlast (line_segments
                 (encode (replicate 58 0) \<lparr>variant = None, padding = None, lineLength = Some 76\<rparr>)))"
    by simp
  with line_wrapping_76 [of "replicate 58 0" None None] show ?thesis by blast
qed

text \<open>
  Claim C10. Let \<open>L > 0\<close> be no multiple of 4 and \<open>out\<close> the string the main loop of
  \<^verbatim>\<open>encode\<close> has built when it exits (the region of the full groups). The loop
  inserts a terminator only after complete 4-symbol groups, the first time the running
  count reaches \<open>L\<close>: every terminated line of \<open>out\<close> has exactly \<open>w = 4 * ceil (L / 4)\<close>
  symbols, with \<open>L < w \<le> L + 3\<close>, and the text after the last terminator of \<open>out\<close> has
  fewer than \<open>L\<close> symbols. The output of \<^verbatim>\<open>encode\<close> is \<open>out\<close>, followed, when the input has
  a tail of one or two bytes, by the symbols of the tail and the terminator that ends
  the last line.
\<close>

theorem wrap_full_group_region:
  assumes "0 < L" and "\<not> 4 dvd L"
  shows "let out = fst (snd (encode_loop (getChars v) b L 0 [] 0));
             w = 4 * nat ((L + 3) div 4)
         in (\<forall>l \<in> set (terminated_lines out). length l = w)
            \<and> int (length (last (split_crlf [] out))) < L
            \<and> L < int w \<and> int w \<le> L + 3
            \<and> encode b \<lparr>variant = Some v, padding = Some pad, lineLength = Some L\<rparr>
                = out @ (if length b mod 3 = 0 then []
                         else tail_group (getChars v) b pad (3 * (length b div 3)) @ CRLF)"
proof -
  let ?out = "fst (snd (encode_loop (getChars v) b L 0 [] 0))"
  have out: "?out = fst (wrap_groups L [] 0 (full_groups (getChars v) b))"
    by (simp add: encode_loop_eq)
  from loop_lines [OF assms(1), of v b] obtain ls r where
    loop: "?out = concat (map (\<lambda>l. l @ CRLF) ls) @ r"
    and ls: "\<forall>l \<in> set ls. length l = line_width L \<and> set l \<subseteq> set (getChars v)"
    and r: "int (length r) < L" "set r \<subseteq> set (getChars v)"
    unfolding out by blast
  have "\<forall>l \<in> set ls. CR \<notin> set l"
    using ls alphabet_clean by blast
  moreover have "CR \<notin> set r"
    using r(2) by (rule alphabet_clean)
  ultimately have split: "split_crlf [] ?out = ls @ [r]"
    unfolding loop by (rule split_crlf_lines)
  have 1: "\<forall>l \<in> set (terminated_lines ?out). length l = line_width L"
    using ls by (simp add: terminated_lines_def split)
  have 2: "int (length (last (split_crlf [] ?out))) < L"
    using r(1) by (simp add: split)
  have 3: "L < int (line_width L) \<and> int (line_width L) \<le> L + 3"
    using line_width_strict [OF assms] line_width_bounds [OF assms(1)] by simp
  have 4: "encode b \<lparr>variant = Some v, padding = Some pad, lineLength = Some L\<rparr>
             = ?out @ (if length b mod 3 = 0 then []
                       else tail_group (getChars v) b pad (3 * (length b div 3)) @ CRLF)"
    using assms(1) by (simp add: encode_wrapped_eq out)
  from 1 2 3 4 show ?thesis
    unfolding Let_def line_width_def by blast
qed

theorem wrap_full_group_region_witness:
  "(0::int) < 5 \<and> \<not> 4 dvd (5::int)
   \<and> ''TWFuTWFu'' \<in> set (terminated_lines
        (fst (snd (encode_loop (getChars Standard) [77, 97, 110, 77, 97, 110, 77, 97, 110] 5 0 [] 0))))
   \<and> length ''TWFuTWFu'' = 4 * nat (((5::int) + 3) div 4)"
proof -
  have "terminated_lines
          (fst (snd (encode_loop (getChars Standard) [77, 97, 110, 77, 97, 110, 77, 97, 110] 5 0 [] 0)))
        = [''TWFuTWFu'']"
    by code_simp
  then have "''TWFuTWFu'' \<in> set (terminated_lines
        (fst (snd (encode_loop (getChars Standard) [77, 97, 110, 77, 97, 110, 77, 97, 110] 5 0 [] 0))))"
    by simp
  moreover have "(0::int) < 5" "\<not> 4 dvd (5::int)" by simp_all
  ultimately show ?thesis
    using wrap_full_group_region [of 5 Standard "[77, 97, 110, 77, 97, 110, 77, 97, 110]" True]
    unfolding Let_def by blast
qed

section \<open>Sanitization in decode\<close>

lemma of_char_std:
  "map of_char (getChars Standard) = [65..<91] @ [97..<123] @ [48..<58] @ [43, 47 :: nat]"
  by code_simp

lemma of_char_url:
  "map of_char (getChars UrlSafe) = [65..<91] @ [97..<123] @ [48..<58] @ [45, 95 :: nat]"
  by code_simp

lemma in_alphabet_iff:
  "c \<in> set chars \<longleftrightarrow> (of_char c :: nat) \<in> set (map of_char chars)"
  by (auto simp: image_iff)

lemma char_eq_code: "c = d \<longleftrightarrow> (of_char c :: nat) = of_char d"
  by simp

lemma code_ranges:
  "(n::nat) \<in> set ([65..<91] @ [97..<123] @ [48..<58] @ [a, b]) \<longleftrightarrow>
     (65 \<le> n \<and> n \<le> 90) \<or> (97 \<le> n \<and> n \<le> 122) \<or> (48 \<le> n \<and> n \<le> 57) \<or> n = a \<or> n = b"
proof -
  have "n \<in> set ([65..<91] @ [97..<123] @ [48..<58] @ [a, b]) \<longleftrightarrow>
          (65 \<le> n \<and> n < 91) \<or> (97 \<le> n \<and> n < 123) \<or> (48 \<le> n \<and> n < 58) \<or> n = a \<or> n = b"
    by (simp only: set_append set_upt Un_iff atLeastLessThan_iff list.set insert_iff empty_iff
        disj_assoc simp_thms)
  then show ?thesis by linarith
qed

lemma regex_matches_iff:
  "regex_matches v c \<longleftrightarrow> \<not> (c \<in> set (getChars v) \<or> (v = Standard \<and> c = CHR ''=''))"
proof (cases v)
  case Standard
  have "c \<in> set (getChars Standard) \<longleftrightarrow>
          (65 \<le> (of_char c :: nat) \<and> (of_char c :: nat) \<le> 90)
          \<or> (97 \<le> (of_char c :: nat) \<and> (of_char c :: nat) \<le> 122)
          \<or> (48 \<le> (of_char c :: nat) \<and> (of_char c :: nat) \<le> 57)
          \<or> (of_char c :: nat) = 43 \<or> (of_char c :: nat) = 47"
    unfolding in_alphabet_iff [of c "getChars Standard"] of_char_std by (rule code_ranges)
  moreover have "c = CHR ''+'' \<longleftrightarrow> (of_char c :: nat) = 43"
    "c = CHR ''/'' \<longleftrightarrow> (of_char c :: nat) = 47"
    by (simp_all add: char_eq_code [of c] del: of_char_eq_iff)
  ultimately show ?thesis
    unfolding Standard regex_matches_def in_range_def by simp
next
  case UrlSafe
  have "c \<in> set (getChars UrlSafe) \<longleftrightarrow>
          (65 \<le> (of_char c :: nat) \<and> (of_char c :: nat) \<le> 90)
          \<or> (97 \<le> (of_char c :: nat) \<and> (of_char c :: nat) \<le> 122)
          \<or> (48 \<le> (of_char c :: nat) \<and> (of_char c :: nat) \<le> 57)
          \<or> (of_char c :: nat) = 45 \<or> (of_char c :: nat) = 95"
    unfolding in_alphabet_iff [of c "getChars UrlSafe"] of_char_url by (rule code_ranges)
  moreover have "c = CHR ''-'' \<longleftrightarrow> (of_char c :: nat) = 45"
    "c = CHR ''_'' \<longleftrightarrow> (of_char c :: nat) = 95"
    by (simp_all add: char_eq_code [of c] del: of_char_eq_iff)
  ultimately show ?thesis
    unfolding UrlSafe regex_matches_def in_range_def by simp
qed

lemma sanitize_eq:
  "sanitize v s = filter (\<lambda>c. c \<in> set (getChars v) \<or> (v = Standard \<and> c = CHR ''='')) s"
  by (simp add: sanitize_def regex_matches_iff)

text \<open>
  Claim C2. The sanitization of \<^verbatim>\<open>decode\<close> keeps the symbols of the alphabet and \<open>=\<close>
  under the standard variant, but under the URL-safe variant it keeps the symbols of
  the alphabet only (\<open>sanitize_eq\<close>): \<^verbatim>\<open>"TQ=="\<close> is sanitized to \<^verbatim>\<open>"TQ"\<close>, where removing
  the characters that are neither URL-safe symbols nor \<open>=\<close> leaves it unchanged. The
  example of the claim holds: \<^verbatim>\<open>decode("TW\r\nFu")\<close> under the default options returns
  the bytes of \<^verbatim>\<open>"Man"\<close>.
\<close>

theorem sanitize_urlsafe_drops_padding:
  "sanitize UrlSafe ''TQ=='' = ''TQ''
   \<and> filter (\<lambda>c. c \<in> set (getChars UrlSafe) \<or> c = CHR ''='') ''TQ=='' = ''TQ==''
   \<and> sanitize Standard ''TQ=='' = ''TQ==''
   \<and> decode (''TW'' @ CRLF @ ''Fu'') \<lparr>variant = None, padding = None, lineLength = None\<rparr>
       = Inr [77, 97, 110]"
  by code_simp

section \<open>The loop of decode\<close>

declare decode_loop.simps [simp del]

declare dec_groups.simps [simp del]

lemma combine_eq:
  "combine lookup s i =
     (push_bit 18 (lookup_or_zero lookup s i) OR push_bit 12 (lookup_or_zero lookup s (i + 1))
        OR push_bit 6 (lookup_or_zero lookup s (i + 2)) OR lookup_or_zero lookup s (i + 3),
      i + 4)"
proof -
  have e: "i + 1 + 1 = i + 2" "i + 2 + 1 = i + 3" "i + 3 + 1 = i + 4" by simp_all
  have "combine lookup s i =
     (push_bit 18 (lookup_or_zero lookup s i) OR push_bit 12 (lookup_or_zero lookup s (i + 1))
        OR push_bit 6 (lookup_or_zero lookup s (i + 1 + 1)) OR lookup_or_zero lookup s (i + 1 + 1 + 1),
      i + 1 + 1 + 1 + 1)"
    by (simp add: combine_def or.assoc del: One_nat_def add_2_eq_Suc' add_2_eq_Suc)
  then show ?thesis by (simp only: e)
qed

lemma combine_chunk: "fst (combine lookup (take 4 (drop i s)) 0) = fst (combine lookup s i)"
proof -
  have "lookup_or_zero lookup (take 4 (drop i s)) 0 = lookup_or_zero lookup s i"
    by (auto simp: lookup_or_zero_def)
  moreover have "lookup_or_zero lookup (take 4 (drop i s)) (0 + 1) = lookup_or_zero lookup s (i + 1)"
    by (auto simp: lookup_or_zero_def)
  moreover have "lookup_or_zero lookup (take 4 (drop i s)) (0 + 2) = lookup_or_zero lookup s (i + 2)"
    by (auto simp: lookup_or_zero_def)
  moreover have "lookup_or_zero lookup (take 4 (drop i s)) (0 + 3) = lookup_or_zero lookup s (i + 3)"
    by (auto simp: lookup_or_zero_def)
  ultimately show ?thesis
    by (simp only: combine_eq fst_conv)
qed

lemma decode_loop_step:
  "i < length s \<Longrightarrow>
   decode_loop lookup s outputLen i byteIndex bytes =
     (case store outputLen (byteIndex, bytes) (triple (fst (combine lookup s i))) of
        (byteIndex', bytes') \<Rightarrow> decode_loop lookup s outputLen (i + 4) byteIndex' bytes')"
  by (subst decode_loop.simps) (simp add: combine_eq triple_def Let_def)

lemma decode_loop_stop:
  "\<not> i < length s \<Longrightarrow> decode_loop lookup s outputLen i byteIndex bytes = bytes"
  by (subst decode_loop.simps) simp

lemma store_append:
  "store outputLen st (xs @ ys) = store outputLen (store outputLen st xs) ys"
proof (induction xs arbitrary: st)
  case Nil
  then show ?case by (cases st) simp
next
  case (Cons x xs)
  then show ?case by (cases st) simp
qed

lemma decode_loop_eq:
  "decode_loop lookup s outputLen i byteIndex bytes =
     snd (store outputLen (byteIndex, bytes) (dec_groups lookup (drop i s)))"
proof (induction "length s - i" arbitrary: i byteIndex bytes rule: less_induct)
  case less
  show ?case
  proof (cases "i < length s")
    case True
    then have "length s - (i + 4) < length s - i" by arith
    note IH = less [OF this]
    from True have "drop i s \<noteq> []" by simp
    then have "dec_groups lookup (drop i s)
                 = triple (fst (combine lookup s i)) @ dec_groups lookup (drop (i + 4) s)"
      by (subst dec_groups.simps) (simp add: combine_chunk add.commute)
    then show ?thesis
      by (simp add: decode_loop_step [OF True] store_append IH split: prod.splits)
  next
    case False
    then show ?thesis
      by (simp add: decode_loop_stop dec_groups.simps [of lookup "[]"])
  qed
qed

lemma store_full:
  "length bytes = outputLen \<Longrightarrow> byteIndex \<le> outputLen \<Longrightarrow> outputLen - byteIndex \<le> length xs \<Longrightarrow>
   snd (store outputLen (byteIndex, bytes) xs) = take byteIndex bytes @ take (outputLen - byteIndex) xs"
proof (induction xs arbitrary: byteIndex bytes)
  case Nil
  then show ?case by simp
next
  case (Cons x xs)
  show ?case
  proof (cases "byteIndex < outputLen")
    case True
    with Cons.prems have "snd (store outputLen (byteIndex + 1, bytes[byteIndex := x]) xs)
        = take (byteIndex + 1) (bytes[byteIndex := x]) @ take (outputLen - (byteIndex + 1)) xs"
      by (intro Cons.IH) simp_all
    moreover have "take (byteIndex + 1) (bytes[byteIndex := x]) = take byteIndex bytes @ [x]"
      using True Cons.prems(1) by (simp add: take_Suc_conv_app_nth)
    moreover have "take (outputLen - byteIndex) (x # xs) = x # take (outputLen - (byteIndex + 1)) xs"
      using True by (simp add: take_Cons')
    ultimately show ?thesis using True by simp
  next
    case False
    with Cons.prems have eq: "byteIndex = outputLen" by simp
    have "snd (store outputLen (outputLen, bytes) ys) = bytes" for ys
      by (induction ys) simp_all
    with eq Cons.prems(1) show ?thesis by simp
  qed
qed

lemma decode_loop_result:
  "outputLen \<le> length (dec_groups lookup s) \<Longrightarrow>
   decode_loop lookup s outputLen 0 0 (replicate outputLen 0) = take outputLen (dec_groups lookup s)"
  by (simp add: decode_loop_eq store_full)

section \<open>Bits of a group\<close>

lemma mask_numerals: "(0x3f :: int) = mask 6" "(0xff :: int) = mask 8"
  by (simp_all add: mask_eq_exp_minus_1)

lemma bit_uint8: "bit (uint (b :: byte)) n \<longleftrightarrow> n < 8 \<and> bit b n"
  by (auto simp: bit_uint_iff dest: bit_imp_le_length)

lemma bit_sextet:
  "bit (push_bit k (drop_bit k c AND mask 6)) n \<longleftrightarrow> k \<le> n \<and> n < k + 6 \<and> bit (c :: int) n"
  by (auto simp: bit_simps)

lemma bit_low_sextet: "bit (c AND mask 6) n \<longleftrightarrow> n < 6 \<and> bit (c :: int) n"
  by (auto simp: bit_simps)

lemma sextets_recombine:
  "push_bit 18 (drop_bit 18 c AND mask 6) OR push_bit 12 (drop_bit 12 c AND mask 6)
     OR push_bit 6 (drop_bit 6 c AND mask 6) OR (c AND mask 6) = take_bit 24 (c :: int)"
proof (rule bit_eqI)
  fix n
  show "bit (push_bit 18 (drop_bit 18 c AND mask 6) OR push_bit 12 (drop_bit 12 c AND mask 6)
     OR push_bit 6 (drop_bit 6 c AND mask 6) OR (c AND mask 6)) n = bit (take_bit 24 c) n"
    unfolding bit_or_iff bit_sextet bit_low_sextet bit_take_bit_iff by auto
qed

lemma bit_pack:
  "bit (pack b0 b1 b2) n \<longleftrightarrow>
     (n < 8 \<and> bit b2 n) \<or> (8 \<le> n \<and> n < 16 \<and> bit b1 (n - 8)) \<or> (16 \<le> n \<and> n < 24 \<and> bit b0 (n - 16))"
  unfolding pack_def bit_or_iff bit_push_bit_iff bit_uint8 by auto

lemma take_bit_pack: "take_bit 24 (pack b0 b1 b2) = pack b0 b1 b2"
  by (rule bit_eqI) (auto simp: bit_take_bit_iff bit_pack)

lemma triple_pack: "triple (pack b0 b1 b2) = [b0, b1, b2]"
proof -
  have "word_of_int (drop_bit 16 (pack b0 b1 b2) AND mask 8) = b0"
    by (rule bit_eqI) (auto simp: bit_simps bit_pack dest: bit_imp_le_length)
  moreover have "word_of_int (drop_bit 8 (pack b0 b1 b2) AND mask 8) = b1"
    by (rule bit_eqI) (auto simp: bit_simps bit_pack dest: bit_imp_le_length)
  moreover have "word_of_int (pack b0 b1 b2 AND mask 8) = b2"
    by (rule bit_eqI) (auto simp: bit_simps bit_pack dest: bit_imp_le_length)
  ultimately show ?thesis by (simp add: triple_def mask_numerals)
qed

lemma pack_recombine:
  "push_bit 18 (drop_bit 18 (pack b0 b1 b2) AND 0x3f) OR push_bit 12 (drop_bit 12 (pack b0 b1 b2) AND 0x3f)
     OR push_bit 6 (drop_bit 6 (pack b0 b1 b2) AND 0x3f) OR (pack b0 b1 b2 AND 0x3f) = pack b0 b1 b2"
  unfolding mask_numerals sextets_recombine by (rule take_bit_pack)

lemma pack_low_zero:
  "pack b0 b1 0 AND 0x3f = 0" "drop_bit 6 (pack b0 0 0) AND 0x3f = 0"
  unfolding mask_numerals by (rule bit_eqI; auto simp: bit_simps bit_pack)+

lemma pack_tail: "push_bit 16 (uint b0) = pack b0 0 0"
  "push_bit 16 (uint b0) OR push_bit 8 (uint b1) = pack b0 b1 0"
  by (simp_all add: pack_def)

lemma lookup_sym: "createLookup v (symbol_at (getChars v) k) = Some (nat (k AND 0x3f))"
  unfolding symbol_at_def by (rule lookup_alphabet) (rule sym_index)

lemma lookup_eq_sign: "createLookup v CHR ''='' = None"
  by (rule lookup_absent) (rule alphabet_no_specials(1))

lemma sextet_nonneg: "int (nat (k AND 0x3f)) = k AND 0x3f"
  by simp

lemma lookup_or_zero_sym:
  "i < length g \<Longrightarrow> g ! i = symbol_at (getChars v) k \<Longrightarrow>
   lookup_or_zero (createLookup v) g i = k AND 0x3f"
  by (simp add: lookup_or_zero_def lookup_sym)

lemma lookup_or_zero_pad:
  "i < length g \<Longrightarrow> g ! i = CHR ''='' \<Longrightarrow> lookup_or_zero (createLookup v) g i = 0"
  by (simp add: lookup_or_zero_def lookup_eq_sign)

lemma lookup_or_zero_end: "length g \<le> i \<Longrightarrow> lookup_or_zero lookup g i = 0"
  by (simp add: lookup_or_zero_def)

lemma val_group4:
  "fst (combine (createLookup v) (group4 (getChars v) b0 b1 b2) 0) = pack b0 b1 b2"
proof -
  let ?g = "group4 (getChars v) b0 b1 b2"
  let ?c = "pack b0 b1 b2"
  have g: "?g = [symbol_at (getChars v) (drop_bit 18 ?c), symbol_at (getChars v) (drop_bit 12 ?c),
                 symbol_at (getChars v) (drop_bit 6 ?c), symbol_at (getChars v) ?c]"
    by (simp add: group4_def pack_def Let_def)
  have "lookup_or_zero (createLookup v) ?g 0 = drop_bit 18 ?c AND 0x3f"
    by (rule lookup_or_zero_sym) (simp_all add: g)
  moreover have "lookup_or_zero (createLookup v) ?g (0 + 1) = drop_bit 12 ?c AND 0x3f"
    by (rule lookup_or_zero_sym) (simp_all add: g)
  moreover have "lookup_or_zero (createLookup v) ?g (0 + 2) = drop_bit 6 ?c AND 0x3f"
    by (rule lookup_or_zero_sym) (simp_all add: g)
  moreover have "lookup_or_zero (createLookup v) ?g (0 + 3) = ?c AND 0x3f"
    by (rule lookup_or_zero_sym) (simp_all add: g)
  ultimately show ?thesis
    by (simp only: combine_eq fst_conv pack_recombine)
qed

lemma val_tail:
  assumes "i < length b" and "length b - i = 1 \<or> (length b - i = 2)"
  shows "fst (combine (createLookup v) (tail_group (getChars v) b pad i) 0)
           = pack (b ! i) (if length b - i = 2 then b ! (i + 1) else 0) 0"
proof -
  let ?t = "tail_group (getChars v) b pad i"
  let ?c = "pack (b ! i) (if length b - i = 2 then b ! (i + 1) else 0) 0"
  have t: "?t = [symbol_at (getChars v) (drop_bit 18 ?c), symbol_at (getChars v) (drop_bit 12 ?c)]
               @ (if length b - i = 2 then [symbol_at (getChars v) (drop_bit 6 ?c)]
                  else if pad then ''='' else [])
               @ (if pad then ''='' else [])"
  proof (cases "length b - i = 2")
    case True
    then show ?thesis by (simp add: tail_group_def Let_def pack_tail(2))
  next
    case False
    then show ?thesis by (simp add: tail_group_def Let_def pack_tail(1))
  qed
  have 0: "lookup_or_zero (createLookup v) ?t 0 = drop_bit 18 ?c AND 0x3f"
    by (rule lookup_or_zero_sym) (simp_all add: t)
  have 1: "lookup_or_zero (createLookup v) ?t (0 + 1) = drop_bit 12 ?c AND 0x3f"
    by (rule lookup_or_zero_sym) (simp_all add: t)
  have 2: "lookup_or_zero (createLookup v) ?t (0 + 2) = drop_bit 6 ?c AND 0x3f"
  proof (cases "length b - i = 2")
    case True
    show ?thesis by (rule lookup_or_zero_sym; simp only: t; simp add: True)
  next
    case False
    have "lookup_or_zero (createLookup v) ?t (0 + 2) = 0"
    proof (cases pad)
      case True
      show ?thesis by (rule lookup_or_zero_pad; simp only: t; simp add: True False)
    next
      case no: False
      show ?thesis by (rule lookup_or_zero_end; simp only: t; simp add: False no)
    qed
    with False show ?thesis by (simp add: pack_low_zero(2))
  qed
  have 3: "lookup_or_zero (createLookup v) ?t (0 + 3) = ?c AND 0x3f"
  proof -
    have "lookup_or_zero (createLookup v) ?t (0 + 3) = 0"
    proof (cases pad)
      case True
      show ?thesis by (rule lookup_or_zero_pad; simp only: t; simp add: True)
    next
      case False
      show ?thesis by (rule lookup_or_zero_end; simp only: t; simp add: False)
    qed
    then show ?thesis by (simp only: pack_low_zero(1))
  qed
  show ?thesis
    by (simp only: combine_eq fst_conv 0 1 2 3 pack_recombine)
qed

section \<open>Decoding the output of encode\<close>

lemma dec_groups_Nil: "dec_groups lookup [] = []"
  by (subst dec_groups.simps) simp

lemma dec_groups_chunk:
  "length g = 4 \<Longrightarrow>
   dec_groups lookup (g @ rest) = triple (fst (combine lookup g 0)) @ dec_groups lookup rest"
  by (subst dec_groups.simps) auto

lemma dec_groups_last:
  "t \<noteq> [] \<Longrightarrow> length t \<le> 4 \<Longrightarrow> dec_groups lookup t = triple (fst (combine lookup t 0))"
  by (subst dec_groups.simps) (simp add: dec_groups_Nil)

lemma dec_full_groups:
  "dec_groups (createLookup v) (concat (full_groups (getChars v) bs) @ t)
     = take (3 * (length bs div 3)) bs @ dec_groups (createLookup v) t"
proof (induction "getChars v" bs rule: full_groups.induct)
  case (1 b0 b1 b2 bs)
  have "dec_groups (createLookup v) (concat (full_groups (getChars v) (b0 # b1 # b2 # bs)) @ t)
          = [b0, b1, b2] @ dec_groups (createLookup v) (concat (full_groups (getChars v) bs) @ t)"
    by (simp add: dec_groups_chunk length_group4 val_group4 triple_pack)
  moreover have "take (3 * (length (b0 # b1 # b2 # bs) div 3)) (b0 # b1 # b2 # bs)
                   = [b0, b1, b2] @ take (3 * (length bs div 3)) bs"
  proof -
    have "length (b0 # b1 # b2 # bs) div 3 = length bs div 3 + 1" by simp
    then have "3 * (length (b0 # b1 # b2 # bs) div 3) = Suc (Suc (Suc (3 * (length bs div 3))))"
      by simp
    then show ?thesis by (simp only: take_Suc_Cons append_Cons append_Nil)
  qed
  ultimately show ?case using 1 by simp
qed simp_all

lemma dec_tail:
  assumes "length b mod 3 \<noteq> 0"
  shows "take (length b mod 3)
           (dec_groups (createLookup v) (tail_group (getChars v) b pad (3 * (length b div 3))))
         = drop (3 * (length b div 3)) b"
proof -
  let ?i = "3 * (length b div 3)"
  let ?t = "tail_group (getChars v) b pad ?i"
  have rem: "length b - ?i = length b mod 3" by (rule tail_start_arith(2))
  from assms have i: "?i < length b" by (simp add: tail_start_arith(1))
  have cases: "length b mod 3 = 1 \<or> length b mod 3 = 2" using assms by linarith
  then have r: "length b - ?i = 1 \<or> length b - ?i = 2" by (simp only: rem)
  have "?t \<noteq> []" by (rule tail_group_nonempty)
  moreover have "length ?t \<le> 4" by (simp add: length_tail_group)
  ultimately have "dec_groups (createLookup v) ?t = triple (fst (combine (createLookup v) ?t 0))"
    by (rule dec_groups_last)
  then have "dec_groups (createLookup v) ?t
      = triple (pack (b ! ?i) (if length b - ?i = 2 then b ! (?i + 1) else 0) 0)"
    by (simp only: val_tail [OF i r])
  then have d: "dec_groups (createLookup v) ?t
      = [b ! ?i, (if length b mod 3 = 2 then b ! (?i + 1) else 0), 0]"
    by (simp only: triple_pack rem)
  from cases show ?thesis
  proof
    assume 1: "length b mod 3 = 1"
    with rem have "length b = ?i + 1" by linarith
    then have "drop ?i b = [b ! ?i]"
      by (metis Cons_nth_drop_Suc Suc_eq_plus1 drop_all i le_refl)
    with 1 show ?thesis by (simp add: d)
  next
    assume 2: "length b mod 3 = 2"
    with rem have len: "length b = ?i + 2" by linarith
    then have "drop ?i b = b ! ?i # drop (Suc ?i) b"
      using i by (simp add: Cons_nth_drop_Suc)
    also have "drop (Suc ?i) b = [b ! (?i + 1)]"
      using len by (metis Cons_nth_drop_Suc Suc_eq_plus1 add_2_eq_Suc' drop_all le_refl lessI)
    finally show ?thesis using 2 by (simp add: d)
  qed
qed

lemma to_int32_id: "0 \<le> x \<Longrightarrow> x < 2 ^ 31 \<Longrightarrow> to_int32 x = x"
  by (simp add: to_int32_def)

lemma endsWith_last: "endsWith s t \<Longrightarrow> t \<noteq> [] \<Longrightarrow> last t \<in> set s"
proof -
  assume a: "endsWith s t" "t \<noteq> []"
  then have "drop (length s - length t) s = t" by (simp add: endsWith_def)
  then have "set t \<subseteq> set s" by (metis set_drop_subset)
  with a(2) show ?thesis by (meson last_in_set subsetD)
qed

lemma sym_not_pad: "symbol_at (getChars v) k \<noteq> CHR ''=''"
  using sym_in_alphabet [of v k] alphabet_no_specials(1) [of v] by metis

lemma tail_group_padded:
  "tail_group (getChars v) b True i =
     [symbol_at (getChars v) (drop_bit 18 (pack (b ! i) (if length b - i = 2 then b ! (i + 1) else 0) 0)),
      symbol_at (getChars v) (drop_bit 12 (pack (b ! i) (if length b - i = 2 then b ! (i + 1) else 0) 0))]
     @ [if length b - i = 2
        then symbol_at (getChars v) (drop_bit 6 (pack (b ! i) (if length b - i = 2 then b ! (i + 1) else 0) 0))
        else CHR ''='', CHR ''='']"
proof (cases "length b - i = 2")
  case True
  then show ?thesis by (simp add: tail_group_def Let_def pack_tail(2))
next
  case False
  then show ?thesis by (simp add: tail_group_def Let_def pack_tail(1))
qed

lemma encode_unwrapped_eq:
  assumes "l = None \<or> l = Some 0"
  shows "encode b \<lparr>variant = v, padding = p, lineLength = l\<rparr> =
     concat (full_groups (getChars (case v of None \<Rightarrow> Standard | Some x \<Rightarrow> x)) b)
     @ (if length b mod 3 = 0 then []
        else tail_group (getChars (case v of None \<Rightarrow> Standard | Some x \<Rightarrow> x)) b
               (case p of None \<Rightarrow> True | Some x \<Rightarrow> x) (3 * (length b div 3)))"
proof -
  have "(case l of None \<Rightarrow> 0 | Some x \<Rightarrow> x) = (0::int)" using assms by auto
  then show ?thesis by (simp add: encode_eq Let_def wrap_groups_off)
qed

lemma padding_chars:
  fixes b :: "byte list"
  defines "i \<equiv> 3 * (length b div 3)"
  assumes e: "E = concat (full_groups (getChars v) b)
                  @ (if length b mod 3 = 0 then [] else tail_group (getChars v) b True i)"
  shows "(if endsWith E ''=='' then 2 else if endsWith E ''='' then 1 else (0::int))
           = (if length b mod 3 = 1 then 2 else if length b mod 3 = 2 then 1 else 0)"
proof -
  have rem: "length b - i = length b mod 3" unfolding i_def by (rule tail_start_arith(2))
  consider "length b mod 3 = 0" | "length b mod 3 = 1" | "length b mod 3 = 2" by linarith
  then show ?thesis
  proof cases
    case 1
    then have "set E \<subseteq> set (getChars v)"
      using set_concat_full_groups [of v b] by (simp add: e)
    then have "CHR ''='' \<notin> set E" using alphabet_no_specials(1) [of v] by blast
    then have "\<not> endsWith E ''==''" "\<not> endsWith E ''=''"
      using endsWith_last [of E "''==''"] endsWith_last [of E "''=''"] by auto
    with 1 show ?thesis by simp
  next
    case 2
    then have "E = concat (full_groups (getChars v) b)
                 @ [symbol_at (getChars v) (drop_bit 18 (pack (b ! i) 0 0)),
                    symbol_at (getChars v) (drop_bit 12 (pack (b ! i) 0 0)), CHR ''='', CHR ''='']"
      by (simp add: e tail_group_padded rem)
    then have "endsWith E ''==''"
      by (simp add: endsWith_def)
    with 2 show ?thesis by simp
  next
    case 3
    let ?c = "pack (b ! i) (b ! (i + 1)) 0"
    from 3 have E: "E = concat (full_groups (getChars v) b)
                 @ [symbol_at (getChars v) (drop_bit 18 ?c), symbol_at (getChars v) (drop_bit 12 ?c),
                    symbol_at (getChars v) (drop_bit 6 ?c), CHR ''='']"
      by (simp add: e tail_group_padded rem)
    have no: "\<not> endsWith E ''==''"
      by (simp add: endsWith_def E sym_not_pad)
    have "endsWith E ''=''"
      by (simp add: endsWith_def E)
    with no 3 show ?thesis by simp
  qed
qed

lemma output_len_padded:
  assumes "(n::nat) < 2 ^ 29 - 1"
  shows "drop_bit 2 (to_int32 (int (4 * (n div 3) + (if n mod 3 = 0 then 0 else 4)) * 3))
     - (if n mod 3 = 1 then 2 else if n mod 3 = 2 then 1 else 0) = int n"
proof -
  obtain q r where n: "n = 3 * q + r" and r: "r = 0 \<or> r = 1 \<or> r = 2"
    by (rule div3_split)
  let ?len = "4 * (n div 3) + (if n mod 3 = 0 then 0 else 4)"
  have len: "int ?len = (if r = 0 then 4 * int q else 4 * int q + 4)"
    using r unfolding n by auto
  have small: "0 \<le> int ?len * 3 \<and> int ?len * 3 < 2 ^ 31"
    using assms r unfolding len n by auto
  then have "to_int32 (int ?len * 3) = int ?len * 3"
    by (intro to_int32_id) simp_all
  moreover have "(int ?len * 3) div 4 - (if n mod 3 = 1 then 2 else if n mod 3 = 2 then 1 else 0) = int n"
    using r unfolding len unfolding n by auto
  ultimately show ?thesis by (simp only: drop_bit_eq_div) simp
qed

lemma output_len_unpadded:
  assumes "(n::nat) < 2 ^ 29 - 1"
  shows "drop_bit 2 (to_int32 (int (4 * (n div 3) + (if n mod 3 = 0 then 0 else if n mod 3 = 2 then 3 else 2)) * 3))
     = int n"
proof -
  obtain q r where n: "n = 3 * q + r" and r: "r = 0 \<or> r = 1 \<or> r = 2"
    by (rule div3_split)
  let ?len = "4 * (n div 3) + (if n mod 3 = 0 then 0 else if n mod 3 = 2 then 3 else 2)"
  have dm: "n div 3 = q" "n mod 3 = r"
    using r unfolding n by auto
  have len: "int ?len = (if r = 0 then 4 * int q else if r = 2 then 4 * int q + 3 else 4 * int q + 2)"
    by (simp add: dm)
  have small: "0 \<le> int ?len * 3 \<and> int ?len * 3 < 2 ^ 31"
    using assms r unfolding len n by auto
  then have "to_int32 (int ?len * 3) = int ?len * 3"
    by (intro to_int32_id) simp_all
  moreover have "(int ?len * 3) div 4 = int n"
    using r unfolding len by (auto simp: n)
  ultimately show ?thesis by (simp only: drop_bit_eq_div) simp
qed

lemma decode_resolved:
  "decode s \<lparr>variant = v, padding = p, lineLength = l\<rparr> =
     (let v' = (case v of None \<Rightarrow> Standard | Some x \<Rightarrow> x);
          pad = (case p of None \<Rightarrow> True | Some x \<Rightarrow> x);
          base64 = sanitize v' s
      in if pad \<and> length base64 mod 4 \<noteq> 0
         then Inl (Error ''Invalid Base64 string length.'')
         else
           let paddingChars = (if pad
                               then (if endsWith base64 ''=='' then 2
                                     else if endsWith base64 ''='' then 1 else 0)
                               else (0 :: int));
               outputLen = drop_bit 2 (to_int32 (int (length base64) * 3)) - paddingChars
           in if outputLen < 0 then Inl RangeError
              else Inr (decode_loop (createLookup v') base64 (nat outputLen) 0 0
                          (replicate (nat outputLen) 0)))"
  by (simp add: decode_def Let_def)

text \<open>
  The round trip holds for every byte sequence whenever the variant is the standard
  one, or padding is disabled, or the length is a multiple of 3 (so that no \<open>=\<close> is
  emitted). The bound on the length keeps \<^verbatim>\<open>len * 3\<close> within 32 bits in \<^verbatim>\<open>decode\<close>.
\<close>

lemma roundtrip:
  assumes l: "l = None \<or> l = Some 0"
    and ok: "(case v of None \<Rightarrow> Standard | Some x \<Rightarrow> x) = Standard \<or> p = Some False
             \<or> length b mod 3 = 0"
    and small: "length b < 2 ^ 29 - 1"
  shows "decode (encode b \<lparr>variant = v, padding = p, lineLength = l\<rparr>)
           \<lparr>variant = v, padding = p, lineLength = l\<rparr> = Inr b"
proof -
  let ?v = "case v of None \<Rightarrow> Standard | Some x \<Rightarrow> x"
  let ?pad = "case p of None \<Rightarrow> True | Some x \<Rightarrow> x"
  let ?i = "3 * (length b div 3)"
  let ?t = "if length b mod 3 = 0 then [] else tail_group (getChars ?v) b ?pad ?i"
  let ?E = "encode b \<lparr>variant = v, padding = p, lineLength = l\<rparr>"
  let ?n = "length b"
  have E: "?E = concat (full_groups (getChars ?v) b) @ ?t"
    by (rule encode_unwrapped_eq [OF l])
  have rem: "?n - ?i = ?n mod 3" by (rule tail_start_arith(2))
  have i_le: "?i \<le> ?n" by simp
  \<comment> \<open>sanitization leaves the encoder's output alone\<close>
  have setE: "set ?E \<subseteq> set (getChars ?v) \<union> (if ?pad \<and> ?n mod 3 \<noteq> 0 then {CHR ''=''} else {})"
    using set_concat_full_groups [of ?v b] set_tail_group [of ?v b ?pad ?i]
    by (auto simp: E split: if_splits)
  have "\<forall>c \<in> set ?E. c \<in> set (getChars ?v) \<or> (?v = Standard \<and> c = CHR ''='')"
  proof
    fix c assume c: "c \<in> set ?E"
    from ok consider "?v = Standard" | "\<not> ?pad" | "?n mod 3 = 0" by auto
    then show "c \<in> set (getChars ?v) \<or> (?v = Standard \<and> c = CHR ''='')"
      using setE c by cases (auto split: if_splits)
  qed
  then have san: "sanitize ?v ?E = ?E"
    by (simp add: sanitize_eq)
  \<comment> \<open>length, padding count and output length\<close>
  have lenE: "length ?E = 4 * (?n div 3)
                + (if ?n mod 3 = 0 then 0 else if ?pad then 4 else if ?n mod 3 = 2 then 3 else 2)"
    by (simp add: E length_concat_full_groups length_tail_group rem)
  have mod4: "length ?E mod 4 = 0" if "?pad"
    using that by (simp add: lenE)
  have outLen: "drop_bit 2 (to_int32 (int (length ?E) * 3))
                  - (if ?pad then (if endsWith ?E ''=='' then 2
                                   else if endsWith ?E ''='' then 1 else 0)
                     else (0 :: int)) = int ?n"
  proof (cases ?pad)
    case True
    from E True have "(if endsWith ?E ''=='' then 2 else if endsWith ?E ''='' then 1 else (0::int))
           = (if ?n mod 3 = 1 then 2 else if ?n mod 3 = 2 then 1 else 0)"
      by (intro padding_chars [of ?E ?v b]) simp
    moreover from True have "length ?E = 4 * (?n div 3) + (if ?n mod 3 = 0 then 0 else 4)"
      by (simp add: lenE)
    ultimately show ?thesis
      using True output_len_padded [OF small] by simp
  next
    case False
    then have "length ?E = 4 * (?n div 3)
                + (if ?n mod 3 = 0 then 0 else if ?n mod 3 = 2 then 3 else 2)"
      by (simp add: lenE)
    then show ?thesis
      using False output_len_unpadded [OF small] by simp
  qed
  \<comment> \<open>the decoded groups\<close>
  have dec: "dec_groups (createLookup ?v) ?E
               = take ?i b @ dec_groups (createLookup ?v) ?t"
    unfolding E by (rule dec_full_groups)
  have tail: "take (?n mod 3) (dec_groups (createLookup ?v) ?t) = drop ?i b"
  proof (cases "?n mod 3 = 0")
    case True
    with rem have "?i = ?n" using i_le by linarith
    with True show ?thesis by (simp add: dec_groups_Nil)
  next
    case False
    then show ?thesis using dec_tail [OF False, of ?v ?pad] by simp
  qed
  have res: "take ?n (dec_groups (createLookup ?v) ?E) = b"
  proof -
    have "take ?n (dec_groups (createLookup ?v) ?E)
            = take ?i b @ take (?n - ?i) (dec_groups (createLookup ?v) ?t)"
      using i_le by (simp add: dec min_def)
    also have "\<dots> = take ?i b @ drop ?i b"
      by (simp only: rem tail)
    finally show ?thesis by simp
  qed
  have "length (take ?n (dec_groups (createLookup ?v) ?E)) = ?n"
    by (simp only: res)
  then have enough: "?n \<le> length (dec_groups (createLookup ?v) ?E)"
    by simp
  have "decode_loop (createLookup ?v) ?E ?n 0 0 (replicate ?n 0) = b"
    using decode_loop_result [OF enough] res by simp
  then show ?thesis
    unfolding decode_resolved Let_def san outLen
    using mod4 by simp
qed

section \<open>Failure of decode\<close>

text \<open>
  For inputs short enough that \<^verbatim>\<open>len * 3\<close> fits 32 bits, \<^verbatim>\<open>decode\<close> fails exactly when
  padding is required and the length of the input as \<^verbatim>\<open>decode\<close> sanitizes it is no
  multiple of 4, and then with the length error. In the remaining case, the URL-safe
  variant with padding and a tail, \<^verbatim>\<open>decode\<close> rejects every output of \<^verbatim>\<open>encode\<close>.
\<close>

lemma endsWith_length: "endsWith s t \<Longrightarrow> length t \<le> length s"
  by (simp add: endsWith_def)

lemma decode_fails_iff:
  assumes "int (length s) * 3 < 2 ^ 31"
  shows "(\<exists>e. decode s \<lparr>variant = v, padding = p, lineLength = l\<rparr> = Inl e) \<longleftrightarrow>
           (case p of None \<Rightarrow> True | Some x \<Rightarrow> x)
           \<and> length (sanitize (case v of None \<Rightarrow> Standard | Some x \<Rightarrow> x) s) mod 4 \<noteq> 0"
    and "decode s \<lparr>variant = v, padding = p, lineLength = l\<rparr> = Inl e \<Longrightarrow>
           e = Error ''Invalid Base64 string length.''"
proof -
  let ?v = "case v of None \<Rightarrow> Standard | Some x \<Rightarrow> x"
  let ?pad = "case p of None \<Rightarrow> True | Some x \<Rightarrow> x"
  let ?b = "sanitize ?v s"
  let ?pc = "if ?pad then (if endsWith ?b ''=='' then 2 else if endsWith ?b ''='' then 1 else 0)
             else (0 :: int)"
  have "length ?b \<le> length s" by (simp add: sanitize_def)
  with assms have "0 \<le> int (length ?b) * 3" "int (length ?b) * 3 < 2 ^ 31" by simp_all
  then have t: "to_int32 (int (length ?b) * 3) = int (length ?b) * 3"
    by (rule to_int32_id)
  have nonneg: "0 \<le> drop_bit 2 (to_int32 (int (length ?b) * 3)) - ?pc"
    if "\<not> (?pad \<and> length ?b mod 4 \<noteq> 0)"
  proof (cases "?pad \<and> (endsWith ?b ''=='' \<or> endsWith ?b ''='')")
    case True
    then have "1 \<le> length ?b" using endsWith_length [of ?b "''==''"] endsWith_length [of ?b "''=''"]
      by auto
    moreover from True that have "length ?b mod 4 = 0" by simp
    ultimately have "4 \<le> length ?b" by presburger
    then have "3 \<le> (int (length ?b) * 3) div 4" by linarith
    moreover have "?pc \<le> 2" by simp
    ultimately show ?thesis unfolding t drop_bit_eq_div by simp
  next
    case False
    then have "?pc = 0" by auto
    then show ?thesis unfolding t drop_bit_eq_div by simp
  qed
  have fail: "decode s \<lparr>variant = v, padding = p, lineLength = l\<rparr>
                = Inl (Error ''Invalid Base64 string length.'')"
    if c: "?pad \<and> length ?b mod 4 \<noteq> 0"
    by (simp only: decode_resolved Let_def if_P [OF c])
  have ok: "\<exists>y. decode s \<lparr>variant = v, padding = p, lineLength = l\<rparr> = Inr y"
    if c: "\<not> (?pad \<and> length ?b mod 4 \<noteq> 0)"
  proof -
    from nonneg [OF c] have n: "\<not> drop_bit 2 (to_int32 (int (length ?b) * 3)) - ?pc < 0"
      by simp
    show ?thesis
      by (simp only: decode_resolved Let_def if_not_P [OF c] if_not_P [OF n]) blast
  qed
  show "(\<exists>e. decode s \<lparr>variant = v, padding = p, lineLength = l\<rparr> = Inl e) \<longleftrightarrow>
           ?pad \<and> length ?b mod 4 \<noteq> 0"
    using fail ok by (metis Inl_Inr_False)
  show "e = Error ''Invalid Base64 string length.''"
    if "decode s \<lparr>variant = v, padding = p, lineLength = l\<rparr> = Inl e"
    using that fail ok by (metis Inl_Inr_False sum.inject(1))
qed

lemma roundtrip_urlsafe_padded_tail:
  assumes "l = None \<or> l = Some 0" and "p = None \<or> p = Some True" and "length b mod 3 \<noteq> 0"
  shows "decode (encode b \<lparr>variant = Some UrlSafe, padding = p, lineLength = l\<rparr>)
           \<lparr>variant = Some UrlSafe, padding = p, lineLength = l\<rparr>
         = Inl (Error ''Invalid Base64 string length.'')"
proof -
  let ?i = "3 * (length b div 3)"
  let ?E = "encode b \<lparr>variant = Some UrlSafe, padding = p, lineLength = l\<rparr>"
  let ?c = "pack (b ! ?i) (if length b - ?i = 2 then b ! (?i + 1) else 0) 0"
  have pad: "(case p of None \<Rightarrow> True | Some x \<Rightarrow> x) = True" using assms(2) by auto
  have rem: "length b - ?i = length b mod 3" by (rule tail_start_arith(2))
  have E: "?E = concat (full_groups (getChars UrlSafe) b) @ tail_group (getChars UrlSafe) b True ?i"
    using assms(3) by (simp add: encode_unwrapped_eq [OF assms(1)] pad)
  have keep: "filter (\<lambda>c. c \<in> set (getChars UrlSafe)) (concat (full_groups (getChars UrlSafe) b))
                = concat (full_groups (getChars UrlSafe) b)"
    using set_concat_full_groups [of UrlSafe b] by (intro filter_True) blast
  have "length (sanitize UrlSafe ?E)
          = 4 * (length b div 3) + (if length b mod 3 = 2 then 3 else 2)"
    by (simp add: E sanitize_eq keep tail_group_padded sym_in_alphabet alphabet_no_specials(1)
        length_concat_full_groups rem)
  then have "length (sanitize UrlSafe ?E) mod 4 \<noteq> 0"
    by (simp split: if_splits)
  then show ?thesis
    unfolding decode_resolved Let_def by (simp add: pad)
qed

text \<open>
  Beyond that bound the 32-bit conversion of \<^verbatim>\<open>len * 3\<close> can turn negative: for a string
  of 715827884 symbols (where the platform allows one) \<^verbatim>\<open>new Uint8Array\<close> is called with
  a negative length and throws.
\<close>

lemma decode_range_error:
  "decode (replicate 715827884 CHR ''A'') \<lparr>variant = None, padding = None, lineLength = None\<rparr>
     = Inl RangeError"
proof -
  let ?s = "replicate 715827884 CHR ''A''"
  have keep: "\<not> regex_matches Standard CHR ''A''"
    by (simp add: regex_matches_def in_range_def)
  then have san: "sanitize Standard ?s = ?s"
    by (simp add: sanitize_def)
  have len: "length ?s = 715827884" by simp
  have "CHR ''='' \<notin> set ?s" by simp
  then have no: "\<not> endsWith ?s ''==''" "\<not> endsWith ?s ''=''"
    using endsWith_last [of ?s "''==''"] endsWith_last [of ?s "''=''"] by auto
  have neg: "drop_bit 2 (to_int32 (int 715827884 * 3)) - 0 < 0"
    by (simp add: to_int32_def drop_bit_eq_div)
  show ?thesis
    unfolding decode_resolved Let_def
    by (simp only: option.case san len no if_False) (use neg in simp)
qed

text \<open>
  Claim C3. The input \<^verbatim>\<open>"TQ=="\<close> has 4 characters once everything but URL-safe symbols
  and \<open>=\<close> is removed, a multiple of 4, and yet \<^verbatim>\<open>decode\<close> with the URL-safe variant and
  padding required fails on it with the length error; with the standard variant it
  returns the byte 77.
\<close>

theorem decode_urlsafe_padded_rejected:
  "length (filter (\<lambda>c. c \<in> set (getChars UrlSafe) \<or> c = CHR ''='') ''TQ=='') mod 4 = 0
   \<and> decode ''TQ=='' \<lparr>variant = Some UrlSafe, padding = Some True, lineLength = None\<rparr>
       = Inl (Error ''Invalid Base64 string length.'')
   \<and> decode ''TQ=='' \<lparr>variant = Some Standard, padding = Some True, lineLength = None\<rparr>
       = Inr [77]"
  by code_simp

section \<open>Round trip\<close>

text \<open>
  Claim C1. For the single byte 77, the URL-safe variant, padding enabled and
  \<^verbatim>\<open>lineLength\<close> 0, \<^verbatim>\<open>decode\<close> of the output of \<^verbatim>\<open>encode\<close> under the same options fails
  with the length error instead of returning the byte; under the standard variant the
  round trip returns it.
\<close>

theorem roundtrip_urlsafe_padded_fails:
  "decode (encode [77] \<lparr>variant = Some UrlSafe, padding = Some True, lineLength = Some 0\<rparr>)
     \<lparr>variant = Some UrlSafe, padding = Some True, lineLength = Some 0\<rparr>
     = Inl (Error ''Invalid Base64 string length.'')
   \<and> decode (encode [77] \<lparr>variant = Some Standard, padding = Some True, lineLength = Some 0\<rparr>)
     \<lparr>variant = Some Standard, padding = Some True, lineLength = Some 0\<rparr>
     = Inr [77]"
  by code_simp

end
